theory Spec2Isabelle
  imports Complex_Main
begin

section \<open>Data model\<close>

text \<open>
  \<^verbatim>\<open>type Orientation = "horizontal" | "vertical" | "both"\<close>
\<close>

datatype Orientation = Horizontal | Vertical | Both

text \<open>
  A value of type \<^verbatim>\<open>string | null | undefined\<close>: the type of \<^verbatim>\<open>activeId\<close> and of
  every id returned by the navigation functions.
\<close>

datatype ident = Undefined | Null | Id string

text \<open>
  A value of type \<^verbatim>\<open>boolean | Orientation\<close> (\<^verbatim>\<open>focusLoop\<close>, \<^verbatim>\<open>focusWrap\<close>).
\<close>

datatype BoolOrOrientation = FBool bool | FOrient Orientation

text \<open>
  \<^verbatim>\<open>type Item = CollectionStoreItem & { rowId?: string; disabled?: boolean; children?: string }\<close>
  with \<^verbatim>\<open>CollectionStoreItem = { id: string; element?: HTMLElement | null }\<close>.
  An optional field that is absent (\<^verbatim>\<open>undefined\<close>) is \<open>None\<close>. The id is a string in
  every registered item; \<open>None\<close> is the \<^verbatim>\<open>null\<close> id of \<^verbatim>\<open>NULL_ITEM\<close>, which the
  source casts to \<^verbatim>\<open>string\<close>. An element is an opaque handle or \<^verbatim>\<open>null\<close>
  (\<open>Some None\<close>).
\<close>

record Item =
  item_id :: "string option"
  element :: "nat option option"
  rowId :: "string option"
  disabled :: "bool option"
  children :: "string option"

text \<open>
  A JavaScript \<^verbatim>\<open>number\<close>: an IEEE 754 binary64 value. A finite value is the rational
  number it denotes; the two zeros are one value, which no function of the stores
  tells apart.
\<close>

datatype number = NaN | PosInfinity | NegInfinity | Finite rat

text \<open>
  \<^verbatim>\<open>CompositeStoreState\<close>: the collection state (\<^verbatim>\<open>items\<close>, \<^verbatim>\<open>renderedItems\<close>)
  extended with the composite fields. The counter \<^verbatim>\<open>moves\<close> is a JavaScript number:
  it starts from \<^verbatim>\<open>props.moves\<close> (default \<^verbatim>\<open>0\<close>) and \<^verbatim>\<open>setMoves\<close> stores any number.
\<close>

record CompositeStoreState =
  items :: "Item list"
  renderedItems :: "Item list"
  baseElement :: "nat option"
  virtualFocus :: bool
  orientation :: Orientation
  rtl :: bool
  focusLoop :: BoolOrOrientation
  focusWrap :: BoolOrOrientation
  focusShift :: bool
  moves :: number
  includesBaseElement :: bool
  activeId :: ident

section \<open>JavaScript primitives used by the stores\<close>

text \<open>Truthiness of an optional string: \<^verbatim>\<open>undefined\<close> and \<^verbatim>\<open>""\<close> are falsy.\<close>

definition truthy_str :: "string option \<Rightarrow> bool" where
  "truthy_str s = (case s of None \<Rightarrow> False | Some t \<Rightarrow> t \<noteq> [])"

text \<open>Truthiness of \<^verbatim>\<open>boolean | Orientation\<close>: only \<^verbatim>\<open>false\<close> is falsy.\<close>

definition truthy_opt :: "BoolOrOrientation \<Rightarrow> bool" where
  "truthy_opt f = (case f of FBool b \<Rightarrow> b | FOrient _ \<Rightarrow> True)"

text \<open>\<^verbatim>\<open>!item.disabled\<close>: an absent flag counts as enabled.\<close>

definition is_disabled :: "Item \<Rightarrow> bool" where
  "is_disabled item = (disabled item = Some True)"

text \<open>\<^verbatim>\<open>item?.id\<close> for an item that may be \<^verbatim>\<open>undefined\<close>.\<close>

definition id_of :: "Item option \<Rightarrow> ident" where
  "id_of item = (case item of None \<Rightarrow> Undefined
                 | Some i \<Rightarrow> (case item_id i of None \<Rightarrow> Null | Some s \<Rightarrow> Id s))"

text \<open>\<^verbatim>\<open>xs[i]\<close>, which is \<^verbatim>\<open>undefined\<close> out of range.\<close>

definition nth_opt :: "'a list \<Rightarrow> nat \<Rightarrow> 'a option" where
  "nth_opt xs i = (if i < length xs then Some (xs ! i) else None)"

text \<open>\<^verbatim>\<open>xs.findIndex(p)\<close>; \<open>None\<close> is the result \<^verbatim>\<open>-1\<close>.\<close>

fun findIndex :: "('a \<Rightarrow> bool) \<Rightarrow> 'a list \<Rightarrow> nat option" where
  "findIndex p [] = None"
| "findIndex p (x # xs) =
     (if p x then Some 0 else (case findIndex p xs of None \<Rightarrow> None | Some i \<Rightarrow> Some (Suc i)))"

text \<open>\<^verbatim>\<open>xs.slice(k)\<close> for an integer \<^verbatim>\<open>k\<close>: a negative start counts from the end.\<close>

definition slice_from :: "'a list \<Rightarrow> int \<Rightarrow> 'a list" where
  "slice_from xs k =
     (if k < 0 then drop (nat (max 0 (int (length xs) + k))) xs else drop (nat k) xs)"

text \<open>\<^verbatim>\<open>xs[0]\<close> and \<^verbatim>\<open>xs[xs.length - 1]\<close>, \<^verbatim>\<open>undefined\<close> on the empty array.\<close>

definition first_opt :: "'a list \<Rightarrow> 'a option" where
  "first_opt xs = (case xs of [] \<Rightarrow> None | x # _ \<Rightarrow> Some x)"

definition last_opt :: "'a list \<Rightarrow> 'a option" where
  "last_opt xs = (if xs = [] then None else Some (last xs))"

text \<open>The template literal \<^verbatim>\<open>`${i}`\<close> for a non-negative integer: its decimal digits.\<close>

definition digit_char :: "nat \<Rightarrow> char" where
  "digit_char d = char_of (48 + d)"

fun string_of_nat :: "nat \<Rightarrow> string" where
  "string_of_nat n =
     (if n < 10 then [digit_char n] else string_of_nat (n div 10) @ [digit_char (n mod 10)])"

declare string_of_nat.simps [simp del]

text \<open>
  The sum \<^verbatim>\<open>a + b\<close> of two numbers: the exact sum of two finite values, rounded to
  the nearest binary64 value, ties to the even significand. \<open>bit_length n\<close> is the
  number of binary digits of \<open>n\<close>, \<open>pow2 k\<close> is \<open>2\<close> to the integer power \<open>k\<close>, and
  \<open>floor_log2 x\<close> is the exponent \<open>e\<close> of a positive \<open>x\<close>, the one with
  \<open>pow2 e \<le> x < pow2 (e + 1)\<close>. A binary64 value has a significand of 53 bits and an
  exponent of at least \<open>-1022\<close> (below it the values are subnormal, spaced
  \<open>pow2 (-1074)\<close> apart); a sum that rounds to \<open>pow2 1024\<close> or more in magnitude is an
  infinity.
\<close>

fun bit_length :: "nat \<Rightarrow> nat" where
  "bit_length n = (if n = 0 then 0 else Suc (bit_length (n div 2)))"

declare bit_length.simps [simp del]

definition pow2 :: "int \<Rightarrow> rat" where
  "pow2 k = (if 0 \<le> k then 2 ^ nat k else 1 / 2 ^ nat (- k))"

definition floor_log2 :: "rat \<Rightarrow> int" where
  "floor_log2 x =
     (if 1 \<le> x then int (bit_length (nat \<lfloor>x\<rfloor>)) - 1
      else (let k = int (bit_length (nat \<lfloor>1 / x\<rfloor>)) - 1
            in if 1 / x = pow2 k then - k else - k - 1))"

definition round_half_even :: "rat \<Rightarrow> int" where
  "round_half_even q =
     (let f = \<lfloor>q\<rfloor>; d = q - of_int f
      in if d < 1 / 2 then f
         else if 1 / 2 < d then f + 1
         else if even f then f else f + 1)"

definition round_double :: "rat \<Rightarrow> number" where
  "round_double x =
     (if x = 0 then Finite 0
      else (let e = max (floor_log2 \<bar>x\<bar>) (- 1022);
                ulp = pow2 (e - 52);
                y = of_int (round_half_even (x / ulp)) * ulp
            in if pow2 1024 \<le> \<bar>y\<bar> then (if 0 < x then PosInfinity else NegInfinity)
               else Finite y))"

definition num_add :: "number \<Rightarrow> number \<Rightarrow> number" where
  "num_add a b =
     (case (a, b) of
        (NaN, _) \<Rightarrow> NaN
      | (_, NaN) \<Rightarrow> NaN
      | (PosInfinity, NegInfinity) \<Rightarrow> NaN
      | (NegInfinity, PosInfinity) \<Rightarrow> NaN
      | (PosInfinity, _) \<Rightarrow> PosInfinity
      | (_, PosInfinity) \<Rightarrow> PosInfinity
      | (NegInfinity, _) \<Rightarrow> NegInfinity
      | (_, NegInfinity) \<Rightarrow> NegInfinity
      | (Finite x, Finite y) \<Rightarrow> round_double (x + y))"

text \<open>
  Modelled from the spec: \<^verbatim>\<open>reverseArray\<close> and \<^verbatim>\<open>flatten2DArray\<close> of
  \<^verbatim>\<open>utils/array\<close> are imported by both store files but are not among the sources. They
  return a reversed copy of an array and the concatenation of an array of rows.
\<close>

definition reverseArray :: "'a list \<Rightarrow> 'a list" where
  "reverseArray xs = rev xs"

definition flatten2DArray :: "'a list list \<Rightarrow> 'a list" where
  "flatten2DArray rows = concat rows"

section \<open>\<^verbatim>\<open>ariakit-core/src/composite/composite-store.ts\<close>\<close>

definition NULL_ITEM :: Item where
  "NULL_ITEM = \<lparr>item_id = None, element = None, rowId = None, disabled = None, children = None\<rparr>"

definition findFirstEnabledItem :: "Item list \<Rightarrow> string option \<Rightarrow> Item option" where
  "findFirstEnabledItem its excludeId =
     List.find (\<lambda>item.
        if truthy_str excludeId then \<not> is_disabled item \<and> item_id item \<noteq> excludeId
        else \<not> is_disabled item) its"

definition getEnabledItems :: "Item list \<Rightarrow> string option \<Rightarrow> Item list" where
  "getEnabledItems its excludeId =
     filter (\<lambda>item.
        if truthy_str excludeId then \<not> is_disabled item \<and> item_id item \<noteq> excludeId
        else \<not> is_disabled item) its"

definition getOppositeOrientation :: "Orientation \<Rightarrow> Orientation option" where
  "getOppositeOrientation orient =
     (if orient = Vertical then Some Horizontal
      else if orient = Horizontal then Some Vertical
      else None)"

definition getItemsInRow :: "Item list \<Rightarrow> string option \<Rightarrow> Item list" where
  "getItemsInRow its rid = filter (\<lambda>item. rowId item = rid) its"

text \<open>
  \<^verbatim>\<open>flipItems\<close>: when no item has the active id, \<^verbatim>\<open>findIndex\<close> gives \<^verbatim>\<open>-1\<close>, so the
  result is \<^verbatim>\<open>items.slice(0)\<close>, the optional null item and \<^verbatim>\<open>items.slice(0, -1)\<close>.
\<close>

definition flipItems :: "Item list \<Rightarrow> string \<Rightarrow> bool \<Rightarrow> Item list" where
  "flipItems its aid shouldInsertNullItem =
     (case findIndex (\<lambda>item. item_id item = Some aid) its of
        None \<Rightarrow> its @ (if shouldInsertNullItem then [NULL_ITEM] else []) @ butlast its
      | Some idx \<Rightarrow>
          drop (idx + 1) its @ (if shouldInsertNullItem then [NULL_ITEM] else []) @ take idx its)"

definition getActiveId :: "Item list \<Rightarrow> ident \<Rightarrow> ident \<Rightarrow> ident" where
  "getActiveId its aid passedId =
     (if passedId \<noteq> Undefined then passedId
      else if aid \<noteq> Undefined then aid
      else id_of (findFirstEnabledItem its None))"

text \<open>
  \<^verbatim>\<open>groupItemsByRows\<close>: each item is pushed onto the first row whose first item has the
  same \<^verbatim>\<open>rowId\<close> (\<^verbatim>\<open>currentRow[0]?.rowId === item.rowId\<close>), or starts a new row.
\<close>

definition head_rowId :: "Item list \<Rightarrow> string option" where
  "head_rowId row = (case row of [] \<Rightarrow> None | x # _ \<Rightarrow> rowId x)"

fun pushToRow :: "Item \<Rightarrow> Item list list \<Rightarrow> Item list list" where
  "pushToRow item [] = [[item]]"
| "pushToRow item (row # rows) =
     (if head_rowId row = rowId item then (row @ [item]) # rows
      else row # pushToRow item rows)"

definition groupItemsByRows :: "Item list \<Rightarrow> Item list list" where
  "groupItemsByRows its = foldl (\<lambda>rows item. pushToRow item rows) [] its"

definition getMaxRowLength :: "'a list list \<Rightarrow> nat" where
  "getMaxRowLength array =
     foldl (\<lambda>maxLength row. if length row > maxLength then length row else maxLength) 0 array"

definition createEmptyItem :: "string option \<Rightarrow> Item" where
  "createEmptyItem rid =
     \<lparr>item_id = Some ''__EMPTY_ITEM__'', element = None, rowId = rid,
      disabled = Some True, children = None\<rparr>"

text \<open>
  \<^verbatim>\<open>normalizeRows\<close> fills every row, in place, up to the longest row's length. The write
  \<^verbatim>\<open>row[i] = ...\<close> replaces the cell when \<open>i\<close> is in range and appends at
  \<open>i = length row\<close>; the loop visits the indices in order, so \<open>i\<close> never exceeds the
  length. \<^verbatim>\<open>row[i - 1]\<close> at \<open>i = 0\<close> is \<^verbatim>\<open>undefined\<close>.
\<close>

definition set_cell :: "Item list \<Rightarrow> nat \<Rightarrow> Item \<Rightarrow> Item list" where
  "set_cell row i v = (if i < length row then row[i := v] else row @ [v])"

definition normalizeCell :: "ident \<Rightarrow> bool \<Rightarrow> Item list \<Rightarrow> nat \<Rightarrow> Item list" where
  "normalizeCell aid shift row i =
     (let item = nth_opt row i in
      if item = None \<or> (shift \<and> is_disabled (the item)) then
        (let isFirst = (i = 0);
             previousItem =
               (if isFirst \<and> shift then findFirstEnabledItem row None
                else if i = 0 then None else nth_opt row (i - 1))
         in set_cell row i
              (if previousItem \<noteq> None \<and> aid \<noteq> id_of previousItem \<and> shift
               then the previousItem
               else createEmptyItem (case previousItem of None \<Rightarrow> None | Some p \<Rightarrow> rowId p)))
      else row)"

definition normalizeRows :: "Item list list \<Rightarrow> ident \<Rightarrow> bool \<Rightarrow> Item list list" where
  "normalizeRows rows aid shift =
     (let maxLength = getMaxRowLength rows in
      map (\<lambda>row. foldl (normalizeCell aid shift) row [0..<maxLength]) rows)"

definition verticalizeItems :: "Item list \<Rightarrow> Item list" where
  "verticalizeItems its =
     (let rows = groupItemsByRows its;
          maxLength = getMaxRowLength rows
      in concat (map (\<lambda>i.
           concat (map (\<lambda>row.
             (case nth_opt row i of
                None \<Rightarrow> []
              | Some item \<Rightarrow>
                  [item\<lparr>rowId := (if truthy_str (rowId item) then Some (string_of_nat i) else None)\<rparr>]))
             rows))
           [0..<maxLength]))"

text \<open>
  \<^verbatim>\<open>getNextId\<close>. The comparison \<^verbatim>\<open>focusLoop !== oppositeOrientation\<close> is between a
  \<^verbatim>\<open>boolean | Orientation\<close> and an optional orientation. An orientation is a non-empty
  string, so \<^verbatim>\<open>orientation || "horizontal"\<close> is the orientation. The optional
  \<^verbatim>\<open>skip\<close> is an integer when it is given; \<^verbatim>\<open>find\<close> followed by \<^verbatim>\<open>indexOf\<close> is the
  index of the first item with the active id.
\<close>

definition differs :: "BoolOrOrientation \<Rightarrow> Orientation option \<Rightarrow> bool" where
  "differs f opp = (case f of FBool _ \<Rightarrow> True | FOrient x \<Rightarrow> opp \<noteq> Some x)"

definition getNextId ::
  "CompositeStoreState \<Rightarrow> Item list \<Rightarrow> Orientation \<Rightarrow> bool \<Rightarrow> int option \<Rightarrow> ident" where
  "getNextId st its orient hasNullItem skip =
     (let isHorizontal = (orient \<noteq> Vertical);
          isRTL = (rtl st \<and> isHorizontal);
          allItems = (if isRTL then reverseArray its else its)
      in case activeId st of
           Undefined \<Rightarrow> id_of (findFirstEnabledItem allItems None)
         | Null \<Rightarrow> id_of (findFirstEnabledItem allItems None)
         | Id aid \<Rightarrow>
            (case findIndex (\<lambda>item. item_id item = Some aid) allItems of
               None \<Rightarrow> id_of (findFirstEnabledItem allItems None)
             | Some activeIndex \<Rightarrow>
                (let activeItem = allItems ! activeIndex;
                     isGrid = truthy_str (rowId activeItem);
                     nextItems = drop (activeIndex + 1) allItems;
                     nextItemsInRow = getItemsInRow nextItems (rowId activeItem)
                 in case skip of
                      Some k \<Rightarrow>
                        (let nextEnabledItemsInRow = getEnabledItems nextItemsInRow (Some aid);
                             nextItem =
                               (case first_opt (slice_from nextEnabledItemsInRow k) of
                                  Some i \<Rightarrow> Some i
                                | None \<Rightarrow> last_opt nextEnabledItemsInRow)
                         in id_of nextItem)
                    | None \<Rightarrow>
                        (let oppositeOrientation =
                               getOppositeOrientation (if isGrid then orient else orient);
                             canLoop = (truthy_opt (focusLoop st)
                                        \<and> differs (focusLoop st) oppositeOrientation);
                             canWrap = (isGrid \<and> truthy_opt (focusWrap st)
                                        \<and> differs (focusWrap st) oppositeOrientation);
                             hasNullItem' =
                               (hasNullItem \<or> (\<not> isGrid \<and> canLoop \<and> includesBaseElement st))
                         in if canLoop then
                              (let loopItems =
                                     (if canWrap \<and> \<not> hasNullItem' then allItems
                                      else getItemsInRow allItems (rowId activeItem));
                                   sortedItems = flipItems loopItems aid hasNullItem';
                                   nextItem = findFirstEnabledItem sortedItems (Some aid)
                               in id_of nextItem)
                            else if canWrap then
                              (let nextItem =
                                     findFirstEnabledItem
                                       (if hasNullItem' then nextItemsInRow else nextItems)
                                       (Some aid)
                               in if hasNullItem'
                                  then (case id_of nextItem of
                                          Id s \<Rightarrow> (if s = [] then Null else Id s)
                                        | _ \<Rightarrow> Null)
                                  else id_of nextItem)
                            else
                              (let nextItem = findFirstEnabledItem nextItemsInRow (Some aid)
                               in if nextItem = None \<and> hasNullItem' then Null
                                  else id_of nextItem)))))"


text \<open>
  Modelled from the spec: \<^verbatim>\<open>createStore\<close> of \<^verbatim>\<open>utils/store\<close> is not among the
  sources. Its \<^verbatim>\<open>setState(key, value)\<close> replaces the field when the value changed and
  then synchronously notifies the listeners registered for that key; \<^verbatim>\<open>sync(listener,
  keys)\<close> registers a listener that also runs at once. The composite store registers one
  listener, for the keys \<^verbatim>\<open>renderedItems\<close> and \<^verbatim>\<open>activeId\<close>:
  \<^verbatim>\<open>composite.setState("activeId", getActiveId(state.renderedItems, state.activeId))\<close>.
\<close>

definition activeId_listener :: "CompositeStoreState \<Rightarrow> CompositeStoreState" where
  "activeId_listener st =
     st\<lparr>activeId := getActiveId (renderedItems st) (activeId st) Undefined\<rparr>"

definition setActiveId :: "ident \<Rightarrow> CompositeStoreState \<Rightarrow> CompositeStoreState" where
  "setActiveId v st =
     (if v = activeId st then st else activeId_listener (st\<lparr>activeId := v\<rparr>))"

definition setRenderedItems :: "Item list \<Rightarrow> CompositeStoreState \<Rightarrow> CompositeStoreState" where
  "setRenderedItems v st =
     (if v = renderedItems st then st else activeId_listener (st\<lparr>renderedItems := v\<rparr>))"

definition setMoves :: "number \<Rightarrow> CompositeStoreState \<Rightarrow> CompositeStoreState" where
  "setMoves v st = st\<lparr>moves := v\<rparr>"

definition move :: "ident \<Rightarrow> CompositeStoreState \<Rightarrow> CompositeStoreState" where
  "move v st =
     (if v = Undefined then st
      else (let st1 = setActiveId v st in setMoves (num_add (moves st1) (Finite 1)) st1))"

definition first :: "CompositeStoreState \<Rightarrow> ident" where
  "first st = id_of (findFirstEnabledItem (renderedItems st) None)"

definition last_id :: "CompositeStoreState \<Rightarrow> ident" where
  "last_id st = id_of (findFirstEnabledItem (reverseArray (renderedItems st)) None)"

definition next_id :: "CompositeStoreState \<Rightarrow> int option \<Rightarrow> ident" where
  "next_id st skip = getNextId st (renderedItems st) (orientation st) False skip"

definition previous :: "CompositeStoreState \<Rightarrow> int option \<Rightarrow> ident" where
  "previous st skip =
     (let isGrid = truthy_str (case findFirstEnabledItem (renderedItems st) None of
                                 None \<Rightarrow> None | Some i \<Rightarrow> rowId i);
          hasNullItem = (\<not> isGrid \<and> includesBaseElement st)
      in getNextId st (reverseArray (renderedItems st)) (orientation st) hasNullItem skip)"

text \<open>\<^verbatim>\<open>!skip\<close>: true for an omitted \<^verbatim>\<open>skip\<close> and for \<^verbatim>\<open>0\<close>.\<close>

definition not_skip :: "int option \<Rightarrow> bool" where
  "not_skip skip = (case skip of None \<Rightarrow> True | Some k \<Rightarrow> k = 0)"

definition down :: "CompositeStoreState \<Rightarrow> int option \<Rightarrow> ident" where
  "down st skip =
     (let shouldShift = (focusShift st \<and> not_skip skip);
          verticalItems =
            verticalizeItems
              (flatten2DArray
                 (normalizeRows (groupItemsByRows (renderedItems st)) (activeId st) shouldShift));
          canLoop = (truthy_opt (focusLoop st) \<and> focusLoop st \<noteq> FOrient Horizontal);
          hasNullItem = (canLoop \<and> includesBaseElement st)
      in getNextId st verticalItems Vertical hasNullItem skip)"

definition up :: "CompositeStoreState \<Rightarrow> int option \<Rightarrow> ident" where
  "up st skip =
     (let shouldShift = (focusShift st \<and> not_skip skip);
          verticalItems =
            verticalizeItems
              (reverseArray
                 (flatten2DArray
                    (normalizeRows (groupItemsByRows (renderedItems st)) (activeId st)
                       shouldShift)));
          hasNullItem = includesBaseElement st
      in getNextId st verticalItems Vertical hasNullItem skip)"


text \<open>
  The initial state of \<^verbatim>\<open>createCompositeStore\<close> when only \<^verbatim>\<open>activeId\<close> (or
  \<^verbatim>\<open>defaultActiveId\<close>) is passed: every other option takes its default, and
  \<^verbatim>\<open>includesBaseElement\<close> defaults to \<^verbatim>\<open>activeId === null\<close>.
\<close>

definition initialState :: "ident \<Rightarrow> CompositeStoreState" where
  "initialState aid =
     \<lparr>items = [], renderedItems = [], baseElement = None, virtualFocus = False,
      orientation = Both, rtl = False, focusLoop = FBool False, focusWrap = FBool False,
      focusShift = False, moves = Finite 0, includesBaseElement = (aid = Null), activeId = aid\<rparr>"

section \<open>The collection store (second module of \<^verbatim>\<open>composite-store.ts\<close>)\<close>

text \<open>
  The collection store is generic in the item type \<^verbatim>\<open>T extends CollectionStoreItem\<close>:
  it reads the \<^verbatim>\<open>id\<close> of an item and copies all its properties with the spread
  \<^verbatim>\<open>{ ...prevItem, ...item }\<close>. What the spread gives depends on which properties an
  object has, and a property that is present with the value \<^verbatim>\<open>undefined\<close> is copied
  like any other. An item of the collection store is therefore an object: the list of its
  own properties with their values (in the order in which they were added, which the
  store never reads). The functions of the composite store only read the five fields of
  \<open>Item\<close>, where an absent property and the value \<^verbatim>\<open>undefined\<close> read the same.
\<close>

datatype jsvalue = JUndefined | JNull | JBool bool | JString string | JElement nat

type_synonym object = "(string \<times> jsvalue) list"

text \<open>\<^verbatim>\<open>ob[k]\<close>: the value of the property, \<^verbatim>\<open>undefined\<close> when the object has none.\<close>

definition get_property :: "object \<Rightarrow> string \<Rightarrow> jsvalue" where
  "get_property ob k = (case map_of ob k of None \<Rightarrow> JUndefined | Some v \<Rightarrow> v)"

text \<open>
  \<^verbatim>\<open>ob[k] = v\<close> on a copy: a property that exists keeps its place and takes the value,
  a new one is added at the end.
\<close>

fun set_property :: "string \<Rightarrow> jsvalue \<Rightarrow> object \<Rightarrow> object" where
  "set_property k v [] = [(k, v)]"
| "set_property k v ((k', v') # ps) =
     (if k' = k then (k, v) # ps else (k', v') # set_property k v ps)"

text \<open>
  \<^verbatim>\<open>{ ...prevItem, ...item }\<close>: a new object that receives every property of
  \<^verbatim>\<open>prevItem\<close> and then every property of \<^verbatim>\<open>item\<close>, in their order.
\<close>

definition spread :: "object \<Rightarrow> object \<Rightarrow> object" where
  "spread prev item = foldl (\<lambda>acc (k, v). set_property k v acc) [] (prev @ item)"

text \<open>
  \<^verbatim>\<open>mergeItem\<close> runs its updater on the current list and keeps \<^verbatim>\<open>prevItem\<close> and
  \<^verbatim>\<open>index\<close> in its closure for the unregister function; \<open>Registration\<close> is that
  closure. \<^verbatim>\<open>indexOf\<close> gives \<^verbatim>\<open>-1\<close> when the element is not found.
\<close>

record Registration =
  prevItem :: "object option"
  index :: "int option"

definition indexOf :: "'a list \<Rightarrow> 'a \<Rightarrow> int" where
  "indexOf xs x = (case findIndex (\<lambda>y. y = x) xs of None \<Rightarrow> - 1 | Some i \<Rightarrow> int i)"

text \<open>
  An assignment \<^verbatim>\<open>xs[i] = v\<close> with \<open>0 \<le> i\<close>: in range it replaces the element, at
  \<open>i = length xs\<close> it appends, and beyond that JavaScript leaves holes in the array,
  for which the model has no list: the result is \<open>None\<close>.
\<close>

definition assign_at :: "'a list \<Rightarrow> nat \<Rightarrow> 'a \<Rightarrow> 'a list option" where
  "assign_at xs i v =
     (if i < length xs then Some (xs[i := v])
      else if i = length xs then Some (xs @ [v])
      else None)"

definition registerItem :: "object \<Rightarrow> object list \<Rightarrow> object list option \<times> Registration" where
  "registerItem item its =
     (case List.find (\<lambda>i. get_property i ''id'' = get_property item ''id'') its of
        Some p \<Rightarrow>
          (let idx = indexOf its p;
               nextItem = spread p item
           in (if idx < 0 then None else assign_at its (nat idx) nextItem,
               \<lparr>prevItem = Some p, index = Some idx\<rparr>))
      | None \<Rightarrow> (Some (its @ [item]), \<lparr>prevItem = None, index = None\<rparr>))"

definition unregisterItem :: "object \<Rightarrow> Registration \<Rightarrow> object list \<Rightarrow> object list option" where
  "unregisterItem item reg its =
     (case prevItem reg of
        None \<Rightarrow> Some (filter (\<lambda>i. get_property i ''id'' \<noteq> get_property item ''id'') its)
      | Some p \<Rightarrow>
          (case index reg of
             None \<Rightarrow> Some its
           | Some idx \<Rightarrow> if idx < 0 then Some its else assign_at its (nat idx) p))"

section \<open>\<^verbatim>\<open>ariakit/src/combobox/store-combobox-popover.ts\<close>: the composite store\<close>

text \<open>
  The third module of this file defines \<^verbatim>\<open>createCompositeStore\<close> a second time, with
  its own copies of the helper functions. They are translated here one by one, with the
  suffix \<open>_cb\<close>. Its state type has the same fields; its listener on
  \<^verbatim>\<open>renderedItems\<close> and \<^verbatim>\<open>activeId\<close> is registered with \<^verbatim>\<open>store.subscribe\<close>.
\<close>

definition NULL_ITEM_cb :: Item where
  "NULL_ITEM_cb = \<lparr>item_id = None, element = None, rowId = None, disabled = None, children = None\<rparr>"

definition findFirstEnabledItem_cb :: "Item list \<Rightarrow> string option \<Rightarrow> Item option" where
  "findFirstEnabledItem_cb its excludeId =
     List.find (\<lambda>item.
        if truthy_str excludeId then \<not> is_disabled item \<and> item_id item \<noteq> excludeId
        else \<not> is_disabled item) its"

definition getEnabledItems_cb :: "Item list \<Rightarrow> string option \<Rightarrow> Item list" where
  "getEnabledItems_cb its excludeId =
     filter (\<lambda>item.
        if truthy_str excludeId then \<not> is_disabled item \<and> item_id item \<noteq> excludeId
        else \<not> is_disabled item) its"

definition getOppositeOrientation_cb :: "Orientation \<Rightarrow> Orientation option" where
  "getOppositeOrientation_cb orient =
     (if orient = Vertical then Some Horizontal
      else if orient = Horizontal then Some Vertical
      else None)"

definition getItemsInRow_cb :: "Item list \<Rightarrow> string option \<Rightarrow> Item list" where
  "getItemsInRow_cb its rid = filter (\<lambda>item. rowId item = rid) its"

definition flipItems_cb :: "Item list \<Rightarrow> string \<Rightarrow> bool \<Rightarrow> Item list" where
  "flipItems_cb its aid shouldInsertNullItem =
     (case findIndex (\<lambda>item. item_id item = Some aid) its of
        None \<Rightarrow> its @ (if shouldInsertNullItem then [NULL_ITEM_cb] else []) @ butlast its
      | Some idx \<Rightarrow>
          drop (idx + 1) its @ (if shouldInsertNullItem then [NULL_ITEM_cb] else []) @ take idx its)"

definition getActiveId_cb :: "Item list \<Rightarrow> ident \<Rightarrow> ident \<Rightarrow> ident" where
  "getActiveId_cb its aid passedId =
     (if passedId \<noteq> Undefined then passedId
      else if aid \<noteq> Undefined then aid
      else id_of (findFirstEnabledItem_cb its None))"

fun pushToRow_cb :: "Item \<Rightarrow> Item list list \<Rightarrow> Item list list" where
  "pushToRow_cb item [] = [[item]]"
| "pushToRow_cb item (row # rows) =
     (if head_rowId row = rowId item then (row @ [item]) # rows
      else row # pushToRow_cb item rows)"

definition groupItemsByRows_cb :: "Item list \<Rightarrow> Item list list" where
  "groupItemsByRows_cb its = foldl (\<lambda>rows item. pushToRow_cb item rows) [] its"

definition getMaxRowLength_cb :: "'a list list \<Rightarrow> nat" where
  "getMaxRowLength_cb array =
     foldl (\<lambda>maxLength row. if length row > maxLength then length row else maxLength) 0 array"

definition createEmptyItem_cb :: "string option \<Rightarrow> Item" where
  "createEmptyItem_cb rid =
     \<lparr>item_id = Some ''__EMPTY_ITEM__'', element = None, rowId = rid,
      disabled = Some True, children = None\<rparr>"

definition normalizeCell_cb :: "ident \<Rightarrow> bool \<Rightarrow> Item list \<Rightarrow> nat \<Rightarrow> Item list" where
  "normalizeCell_cb aid shift row i =
     (let item = nth_opt row i in
      if item = None \<or> (shift \<and> is_disabled (the item)) then
        (let isFirst = (i = 0);
             previousItem =
               (if isFirst \<and> shift then findFirstEnabledItem_cb row None
                else if i = 0 then None else nth_opt row (i - 1))
         in set_cell row i
              (if previousItem \<noteq> None \<and> aid \<noteq> id_of previousItem \<and> shift
               then the previousItem
               else createEmptyItem_cb (case previousItem of None \<Rightarrow> None | Some p \<Rightarrow> rowId p)))
      else row)"

definition normalizeRows_cb :: "Item list list \<Rightarrow> ident \<Rightarrow> bool \<Rightarrow> Item list list" where
  "normalizeRows_cb rows aid shift =
     (let maxLength = getMaxRowLength_cb rows in
      map (\<lambda>row. foldl (normalizeCell_cb aid shift) row [0..<maxLength]) rows)"

definition verticalizeItems_cb :: "Item list \<Rightarrow> Item list" where
  "verticalizeItems_cb its =
     (let rows = groupItemsByRows_cb its;
          maxLength = getMaxRowLength_cb rows
      in concat (map (\<lambda>i.
           concat (map (\<lambda>row.
             (case nth_opt row i of
                None \<Rightarrow> []
              | Some item \<Rightarrow>
                  [item\<lparr>rowId := (if truthy_str (rowId item) then Some (string_of_nat i) else None)\<rparr>]))
             rows))
           [0..<maxLength]))"

definition getNextId_cb ::
  "CompositeStoreState \<Rightarrow> Item list \<Rightarrow> Orientation \<Rightarrow> bool \<Rightarrow> int option \<Rightarrow> ident" where
  "getNextId_cb st its orient hasNullItem skip =
     (let isHorizontal = (orient \<noteq> Vertical);
          isRTL = (rtl st \<and> isHorizontal);
          allItems = (if isRTL then reverseArray its else its)
      in case activeId st of
           Undefined \<Rightarrow> id_of (findFirstEnabledItem_cb allItems None)
         | Null \<Rightarrow> id_of (findFirstEnabledItem_cb allItems None)
         | Id aid \<Rightarrow>
            (case findIndex (\<lambda>item. item_id item = Some aid) allItems of
               None \<Rightarrow> id_of (findFirstEnabledItem_cb allItems None)
             | Some activeIndex \<Rightarrow>
                (let activeItem = allItems ! activeIndex;
                     isGrid = truthy_str (rowId activeItem);
                     nextItems = drop (activeIndex + 1) allItems;
                     nextItemsInRow = getItemsInRow_cb nextItems (rowId activeItem)
                 in case skip of
                      Some k \<Rightarrow>
                        (let nextEnabledItemsInRow = getEnabledItems_cb nextItemsInRow (Some aid);
                             nextItem =
                               (case first_opt (slice_from nextEnabledItemsInRow k) of
                                  Some i \<Rightarrow> Some i
                                | None \<Rightarrow> last_opt nextEnabledItemsInRow)
                         in id_of nextItem)
                    | None \<Rightarrow>
                        (let oppositeOrientation =
                               getOppositeOrientation_cb (if isGrid then orient else orient);
                             canLoop = (truthy_opt (focusLoop st)
                                        \<and> differs (focusLoop st) oppositeOrientation);
                             canWrap = (isGrid \<and> truthy_opt (focusWrap st)
                                        \<and> differs (focusWrap st) oppositeOrientation);
                             hasNullItem' =
                               (hasNullItem \<or> (\<not> isGrid \<and> canLoop \<and> includesBaseElement st))
                         in if canLoop then
                              (let loopItems =
                                     (if canWrap \<and> \<not> hasNullItem' then allItems
                                      else getItemsInRow_cb allItems (rowId activeItem));
                                   sortedItems = flipItems_cb loopItems aid hasNullItem';
                                   nextItem = findFirstEnabledItem_cb sortedItems (Some aid)
                               in id_of nextItem)
                            else if canWrap then
                              (let nextItem =
                                     findFirstEnabledItem_cb
                                       (if hasNullItem' then nextItemsInRow else nextItems)
                                       (Some aid)
                               in if hasNullItem'
                                  then (case id_of nextItem of
                                          Id s \<Rightarrow> (if s = [] then Null else Id s)
                                        | _ \<Rightarrow> Null)
                                  else id_of nextItem)
                            else
                              (let nextItem = findFirstEnabledItem_cb nextItemsInRow (Some aid)
                               in if nextItem = None \<and> hasNullItem' then Null
                                  else id_of nextItem)))))"


definition activeId_listener_cb :: "CompositeStoreState \<Rightarrow> CompositeStoreState" where
  "activeId_listener_cb st =
     st\<lparr>activeId := getActiveId_cb (renderedItems st) (activeId st) Undefined\<rparr>"

definition setActiveId_cb :: "ident \<Rightarrow> CompositeStoreState \<Rightarrow> CompositeStoreState" where
  "setActiveId_cb v st =
     (if v = activeId st then st else activeId_listener_cb (st\<lparr>activeId := v\<rparr>))"

definition setMoves_cb :: "number \<Rightarrow> CompositeStoreState \<Rightarrow> CompositeStoreState" where
  "setMoves_cb v st = st\<lparr>moves := v\<rparr>"

definition move_cb :: "ident \<Rightarrow> CompositeStoreState \<Rightarrow> CompositeStoreState" where
  "move_cb v st =
     (if v = Undefined then st
      else (let st1 = setActiveId_cb v st in setMoves_cb (num_add (moves st1) (Finite 1)) st1))"

definition first_cb :: "CompositeStoreState \<Rightarrow> ident" where
  "first_cb st = id_of (findFirstEnabledItem_cb (renderedItems st) None)"

definition last_id_cb :: "CompositeStoreState \<Rightarrow> ident" where
  "last_id_cb st = id_of (findFirstEnabledItem_cb (reverseArray (renderedItems st)) None)"

definition next_id_cb :: "CompositeStoreState \<Rightarrow> int option \<Rightarrow> ident" where
  "next_id_cb st skip = getNextId_cb st (renderedItems st) (orientation st) False skip"

definition previous_cb :: "CompositeStoreState \<Rightarrow> int option \<Rightarrow> ident" where
  "previous_cb st skip =
     (let isGrid = truthy_str (case findFirstEnabledItem_cb (renderedItems st) None of
                                 None \<Rightarrow> None | Some i \<Rightarrow> rowId i);
          hasNullItem = (\<not> isGrid \<and> includesBaseElement st)
      in getNextId_cb st (reverseArray (renderedItems st)) (orientation st) hasNullItem skip)"

definition down_cb :: "CompositeStoreState \<Rightarrow> int option \<Rightarrow> ident" where
  "down_cb st skip =
     (let shouldShift = (focusShift st \<and> not_skip skip);
          verticalItems =
            verticalizeItems_cb
              (flatten2DArray
                 (normalizeRows_cb (groupItemsByRows_cb (renderedItems st)) (activeId st) shouldShift));
          canLoop = (truthy_opt (focusLoop st) \<and> focusLoop st \<noteq> FOrient Horizontal);
          hasNullItem = (canLoop \<and> includesBaseElement st)
      in getNextId_cb st verticalItems Vertical hasNullItem skip)"

definition up_cb :: "CompositeStoreState \<Rightarrow> int option \<Rightarrow> ident" where
  "up_cb st skip =
     (let shouldShift = (focusShift st \<and> not_skip skip);
          verticalItems =
            verticalizeItems_cb
              (reverseArray
                 (flatten2DArray
                    (normalizeRows_cb (groupItemsByRows_cb (renderedItems st)) (activeId st)
                       shouldShift)));
          hasNullItem = includesBaseElement st
      in getNextId_cb st verticalItems Vertical hasNullItem skip)"

section \<open>\<^verbatim>\<open>ariakit/src/combobox/store-combobox-popover.ts\<close>: the tooltip store\<close>

text \<open>
  Each tooltip store owns a fresh \<^verbatim>\<open>Symbol()\<close> (a natural number here), a
  \<^verbatim>\<open>timeout\<close> and an \<^verbatim>\<open>open\<close> flag. The module-level store \<^verbatim>\<open>tooltips\<close> holds
  \<^verbatim>\<open>activeRef: symbol | null\<close>, shared by all of them. \<open>tooltipOf\<close> maps the symbol of
  every tooltip store that has been set up to its state.
\<close>

record TooltipState =
  timeout :: int
  tooltip_open :: bool

record Tooltips =
  activeRef :: "nat option"
  tooltipOf :: "nat \<Rightarrow> TooltipState option"

text \<open>
  What a timer does when it fires: \<^verbatim>\<open>tooltips.setState("activeRef", ref)\<close>, or
  \<^verbatim>\<open>tooltips.setState("activeRef", (activeRef) => activeRef === ref ? null : activeRef)\<close>.
\<close>

datatype TimerAction = Acquire nat | Release nat

text \<open>
  Modelled from the spec: \<^verbatim>\<open>createStore\<close> is not among the sources. Its
  \<^verbatim>\<open>setState\<close> replaces the field when the value changed and then synchronously
  notifies every listener registered for the key. Each tooltip store registers, with
  \<^verbatim>\<open>tooltips.sync\<close>, the listener
  \<^verbatim>\<open>tooltip.setState("open", state.activeRef === ref)\<close> for the key \<^verbatim>\<open>activeRef\<close>.
\<close>

definition activeRef_listeners :: "Tooltips \<Rightarrow> Tooltips" where
  "activeRef_listeners w =
     w\<lparr>tooltipOf := (\<lambda>r. case tooltipOf w r of
                           None \<Rightarrow> None
                         | Some t \<Rightarrow> Some (t\<lparr>tooltip_open := (activeRef w = Some r)\<rparr>))\<rparr>"

definition set_activeRef :: "nat option \<Rightarrow> Tooltips \<Rightarrow> Tooltips" where
  "set_activeRef v w =
     (if v = activeRef w then w else activeRef_listeners (w\<lparr>activeRef := v\<rparr>))"

text \<open>\<^verbatim>\<open>tooltip.setState("open", v)\<close> of the tooltip store with symbol \<open>ref\<close>.\<close>

definition set_open :: "nat \<Rightarrow> bool \<Rightarrow> Tooltips \<Rightarrow> Tooltips" where
  "set_open ref v w =
     w\<lparr>tooltipOf := (\<lambda>r. if r = ref
                         then (case tooltipOf w r of
                                 None \<Rightarrow> None
                               | Some t \<Rightarrow> Some (t\<lparr>tooltip_open := v\<rparr>))
                         else tooltipOf w r)\<rparr>"

text \<open>
  The listener that \<^verbatim>\<open>createTooltipStore\<close> registers with \<^verbatim>\<open>disclosure.sync\<close> for
  the key \<^verbatim>\<open>open\<close>, run for the tooltip store \<open>ref\<close> with the disclosure's new and
  previous \<^verbatim>\<open>open\<close>. It returns the new state and the timer it scheduled with
  \<^verbatim>\<open>afterTimeout\<close>, if any, as the delay and the action. \<^verbatim>\<open>!timeout\<close> holds for
  \<open>0\<close>.
\<close>

definition disclosure_listener ::
  "nat \<Rightarrow> bool \<Rightarrow> bool \<Rightarrow> Tooltips \<Rightarrow> Tooltips \<times> (int \<times> TimerAction) option" where
  "disclosure_listener ref state_open prev_open w =
     (let tmo = (case tooltipOf w ref of None \<Rightarrow> 0 | Some t \<Rightarrow> timeout t);
          active = activeRef w
      in if state_open then
           (if tmo = 0 \<or> active \<noteq> None then
              (set_open ref True (set_activeRef (Some ref) w), None)
            else
              (set_activeRef None w, Some (tmo, Acquire ref)))
         else if state_open \<noteq> prev_open then
           (set_open ref False w, Some (tmo, Release ref))
         else (w, None))"

definition fire :: "TimerAction \<Rightarrow> Tooltips \<Rightarrow> Tooltips" where
  "fire a w =
     (case a of
        Acquire ref \<Rightarrow> set_activeRef (Some ref) w
      | Release ref \<Rightarrow> set_activeRef (if activeRef w = Some ref then None else activeRef w) w)"

text \<open>Whether the tooltip store \<open>ref\<close> is open; a store that was never set up is not.\<close>

definition is_open :: "Tooltips \<Rightarrow> nat \<Rightarrow> bool" where
  "is_open w ref = (case tooltipOf w ref of None \<Rightarrow> False | Some t \<Rightarrow> tooltip_open t)"

section \<open>Scenarios of the specification\<close>

text \<open>An enabled item with an id and an optional row, and nothing else.\<close>

definition enabledItem :: "string \<Rightarrow> string option \<Rightarrow> Item" where
  "enabledItem i r =
     \<lparr>item_id = Some i, element = None, rowId = r, disabled = None, children = None\<rparr>"

text \<open>
  A store created with default options and the given active id, in which the given items
  have been rendered.
\<close>

definition rendered :: "Item list \<Rightarrow> ident \<Rightarrow> CompositeStoreState" where
  "rendered its aid = (initialState aid)\<lparr>items := its, renderedItems := its\<rparr>"

text \<open>The grid \<open>[[a, b], [c, d]]\<close> with the rows \<open>r1\<close> and \<open>r2\<close>.\<close>

definition grid2x2 ::
  "string \<Rightarrow> string \<Rightarrow> string \<Rightarrow> string \<Rightarrow> string \<Rightarrow> string \<Rightarrow> Item list" where
  "grid2x2 a b c d r1 r2 =
     [enabledItem a (Some r1), enabledItem b (Some r1),
      enabledItem c (Some r2), enabledItem d (Some r2)]"

text \<open>
  Two tooltip stores, \<open>1\<close> and \<open>2\<close>, both closed, with the timeouts given; no tooltip
  is active.
\<close>

definition two_tooltips :: "int \<Rightarrow> int \<Rightarrow> Tooltips" where
  "two_tooltips t1 t2 =
     \<lparr>activeRef = None,
      tooltipOf = (\<lambda>r. if r = 1 then Some \<lparr>timeout = t1, tooltip_open = False\<rparr>
                        else if r = 2 then Some \<lparr>timeout = t2, tooltip_open = False\<rparr>
                        else None)\<rparr>"

section \<open>Statements of the specification\<close>

text \<open>
  ``\<open>focusLoop\<close> is true or \<open>"horizontal"\<close>/\<open>"both"\<close> (as applicable to orientation)'':
  the option is \<open>true\<close> or \<open>"both"\<close>, or names the store's orientation, or is any
  orientation while the store's orientation is \<open>"both"\<close>.
\<close>

definition loop_applies :: "BoolOrOrientation \<Rightarrow> Orientation \<Rightarrow> bool" where
  "loop_applies f ori =
     (f = FBool True \<or> f = FOrient Both \<or> f = FOrient ori \<or> (f \<noteq> FBool False \<and> ori = Both))"

text \<open>
  ``\<open>first()\<close>: jump to the first enabled item in render order, respecting RTL reversal
  for horizontal cases only'': the first enabled item of the rendered items, read in
  reverse when \<open>rtl\<close> is set and the orientation is not vertical.
\<close>

definition first_rtl_spec :: "CompositeStoreState \<Rightarrow> ident" where
  "first_rtl_spec st =
     id_of (List.find (\<lambda>i. \<not> is_disabled i)
              (if rtl st \<and> orientation st \<noteq> Vertical then rev (renderedItems st)
               else renderedItems st))"

section \<open>Auxiliary definitions for the proofs\<close>

text \<open>
  An item of a list handed to \<^verbatim>\<open>getNextId\<close> is harmless as a candidate when it is
  disabled, or has the \<^verbatim>\<open>null\<close> id, or shares its id with an enabled rendered item.
  An id is a legitimate result when it is \<^verbatim>\<open>undefined\<close>, \<^verbatim>\<open>null\<close> or the id of an
  enabled rendered item.
\<close>

definition from_rendered :: "Item list \<Rightarrow> Item \<Rightarrow> bool" where
  "from_rendered R i =
     (is_disabled i \<or> item_id i = None
      \<or> (\<exists>j\<in>set R. \<not> is_disabled j \<and> item_id j = item_id i))"

definition rendered_id :: "Item list \<Rightarrow> ident \<Rightarrow> bool" where
  "rendered_id R r =
     (r = Undefined \<or> r = Null \<or> (\<exists>j\<in>set R. \<not> is_disabled j \<and> id_of (Some j) = r))"

text \<open>
  For the proofs about \<^verbatim>\<open>down\<close>: \<open>firsts\<close> keeps, of a list of items, the first item
  of every \<^verbatim>\<open>rowId\<close>; \<open>first_cell\<close> is the cell that \<^verbatim>\<open>normalizeRows\<close> leaves at the
  head of a row; \<open>norm_inv\<close> is the loop invariant of \<^verbatim>\<open>normalizeRows\<close> on one row after
  \<open>m\<close> cells; \<open>relabel\<close> is the copy that \<^verbatim>\<open>verticalizeItems\<close> pushes for column \<open>i\<close>.
\<close>

fun firsts :: "Item list \<Rightarrow> Item list" where
  "firsts [] = []"
| "firsts (x # xs) = x # filter (\<lambda>y. rowId y \<noteq> rowId x) (firsts xs)"

definition first_cell :: "ident \<Rightarrow> bool \<Rightarrow> Item list \<Rightarrow> Item" where
  "first_cell aid shift row =
     (if shift \<and> is_disabled (hd row) then
        (case findFirstEnabledItem row None of
           None \<Rightarrow> createEmptyItem None
         | Some p \<Rightarrow> if aid \<noteq> id_of (Some p) then p else createEmptyItem (rowId p))
      else hd row)"

definition norm_inv :: "ident \<Rightarrow> bool \<Rightarrow> Item list \<Rightarrow> nat \<Rightarrow> Item list \<Rightarrow> bool" where
  "norm_inv aid shift row m nr =
     (length nr = max (length row) m
      \<and> (0 < m \<longrightarrow> hd nr = first_cell aid shift row)
      \<and> (\<forall>j<m. rowId (nr ! j) = rowId (first_cell aid shift row))
      \<and> (\<forall>j. m \<le> j \<longrightarrow> j < length row \<longrightarrow> nr ! j = row ! j)
      \<and> (\<forall>x\<in>set nr. x \<in> set row \<or> (\<exists>r. x = createEmptyItem r)))"

definition relabel :: "nat \<Rightarrow> Item \<Rightarrow> Item" where
  "relabel i item =
     item\<lparr>rowId := (if truthy_str (rowId item) then Some (string_of_nat i) else None)\<rparr>"

text \<open>A disabled item with an id and an optional row.\<close>

definition disabledItem :: "string \<Rightarrow> string option \<Rightarrow> Item" where
  "disabledItem i r =
     \<lparr>item_id = Some i, element = None, rowId = r, disabled = Some True, children = None\<rparr>"

section \<open>Properties\<close>

subsection \<open>Helper lemmas\<close>

lemma find_Some_findIndex_eq:
  "List.find P xs = Some p \<Longrightarrow>
     \<exists>i. findIndex (\<lambda>y. y = p) xs = Some i \<and> i < length xs \<and> xs ! i = p"
  by (induction xs) (auto split: if_splits)

lemma find_None_filter_neq:
  "List.find (\<lambda>i. f i = k) xs = None \<Longrightarrow> filter (\<lambda>i. f i \<noteq> k) xs = xs"
  by (induction xs) (auto split: if_splits)

subsection \<open>Vertical movement in a 2 by 2 grid\<close>

text \<open>
  C2. In the grid \<open>[[a, b], [c, d]]\<close> of enabled items with distinct ids and two distinct,
  non-empty row ids, in a store with default options: with \<open>b\<close> active, \<open>down()\<close> returns
  \<open>d\<close>; with \<open>d\<close> active, \<open>up()\<close> returns \<open>b\<close>.
\<close>

theorem down_up_grid2x2:
  assumes "distinct [a, b, c, d]" and "r1 \<noteq> r2" and "r1 \<noteq> []" and "r2 \<noteq> []"
  shows "down (rendered (grid2x2 a b c d r1 r2) (Id b)) None = Id d
       \<and> up (rendered (grid2x2 a b c d r1 r2) (Id d)) None = Id b"
proof -
  have d: "down (rendered (grid2x2 a b c d r1 r2) (Id b)) None = Id d"
    using assms
    by (auto simp add: down_def rendered_def grid2x2_def enabledItem_def initialState_def
        not_skip_def groupItemsByRows_def normalizeRows_def getMaxRowLength_def
        head_rowId_def flatten2DArray_def normalizeCell_def nth_opt_def
        verticalizeItems_def Let_def upt_rec truthy_str_def string_of_nat.simps
        digit_char_def getNextId_def findFirstEnabledItem_def getItemsInRow_def id_of_def
        is_disabled_def truthy_opt_def differs_def getOppositeOrientation_def)
  have u: "up (rendered (grid2x2 a b c d r1 r2) (Id d)) None = Id b"
    using assms
    by (auto simp add: up_def rendered_def grid2x2_def enabledItem_def initialState_def
        not_skip_def groupItemsByRows_def normalizeRows_def getMaxRowLength_def
        head_rowId_def flatten2DArray_def reverseArray_def normalizeCell_def nth_opt_def
        verticalizeItems_def Let_def upt_rec truthy_str_def string_of_nat.simps
        digit_char_def getNextId_def findFirstEnabledItem_def getItemsInRow_def id_of_def
        is_disabled_def truthy_opt_def differs_def getOppositeOrientation_def)
  from d u show ?thesis by simp
qed

theorem down_up_grid2x2_witness:
  "down (rendered (grid2x2 ''A'' ''B'' ''C'' ''D'' ''row-1'' ''row-2'') (Id ''B'')) None = Id ''D''
   \<and> up (rendered (grid2x2 ''A'' ''B'' ''C'' ''D'' ''row-1'' ''row-2'') (Id ''D'')) None = Id ''B''"
  using down_up_grid2x2 [of "''A''" "''B''" "''C''" "''D''" "''row-1''" "''row-2''"]
  by simp

subsection \<open>Committing a move\<close>

text \<open>
  Adding one to a number is exact for every integer from \<open>- (2 ^ 53)\<close> up to and
  without \<open>2 ^ 53\<close>. At \<open>2 ^ 53\<close> the exact sum lies half-way between the binary64
  values \<open>2 ^ 53\<close> and \<open>2 ^ 53 + 2\<close> and is rounded to the even significand, which is
  \<open>2 ^ 53\<close> again.
\<close>

lemma bit_length_bounds: "0 < n \<Longrightarrow> 2 ^ (bit_length n - 1) \<le> n \<and> n < 2 ^ bit_length n"
proof (induction n rule: bit_length.induct)
  case (1 n)
  show ?case
  proof (cases "n div 2 = 0")
    case True
    with 1(2) have "n = 1" by (simp add: div_eq_0_iff)
    then show ?thesis by (simp add: bit_length.simps[of "Suc 0"] bit_length.simps[of 0])
  next
    case False
    with 1 have IH: "2 ^ (bit_length (n div 2) - 1) \<le> n div 2" "n div 2 < 2 ^ bit_length (n div 2)"
      by simp_all
    from False have pos: "0 < bit_length (n div 2)" by (simp add: bit_length.simps[of "n div 2"])
    from 1(2) have bl: "bit_length n = Suc (bit_length (n div 2))"
      by (simp add: bit_length.simps[of n])
    from IH(1) have "2 * 2 ^ (bit_length (n div 2) - 1) \<le> n" by simp
    with pos have lo: "2 ^ bit_length (n div 2) \<le> n"
      by (cases "bit_length (n div 2)") simp_all
    from IH(2) have hi: "n < 2 * 2 ^ bit_length (n div 2)" by simp
    from lo hi show ?thesis by (simp add: bl)
  qed
qed

lemma bit_length_pos: "0 < n \<Longrightarrow> 0 < bit_length n"
  by (simp add: bit_length.simps[of n])

lemma floor_log2_of_int:
  assumes "1 \<le> a"
  shows "floor_log2 (of_int a) = int (bit_length (nat a)) - 1"
  using assms by (simp add: floor_log2_def)

lemma round_half_even_of_int: "round_half_even (of_int k) = k"
  by (simp add: round_half_even_def)

lemma pow2_nonneg: "0 \<le> k \<Longrightarrow> pow2 k = 2 ^ nat k"
  by (simp add: pow2_def)

lemma pow2_neg: "k \<le> 0 \<Longrightarrow> pow2 k = 1 / 2 ^ nat (- k)"
  by (simp add: pow2_def)

lemma round_double_exact_ulp:
  assumes x: "x \<noteq> 0" and e: "max (floor_log2 \<bar>x\<bar>) (- 1022) = e"
    and q: "x / pow2 (e - 52) = of_int k" and small: "\<bar>x\<bar> < pow2 1024"
  shows "round_double x = Finite x"
proof -
  have p: "pow2 (e - 52) \<noteq> 0" by (simp add: pow2_def)
  from q p have "of_int k * pow2 (e - 52) = x" by (simp add: field_simps)
  with x e q small show ?thesis
    by (simp add: round_double_def Let_def round_half_even_of_int)
qed

lemma round_double_of_int:
  assumes n0: "n \<noteq> 0" and bound: "\<bar>n\<bar> \<le> 2 ^ 53"
  shows "round_double (of_int n) = Finite (of_int n)"
proof -
  let ?a = "\<bar>n\<bar>"
  let ?b = "bit_length (nat ?a)"
  from n0 have a1: "1 \<le> ?a" by simp
  then have npos: "0 < nat ?a" by simp
  from bit_length_bounds[OF npos] have lo: "2 ^ (?b - 1) \<le> nat ?a" and hi: "nat ?a < 2 ^ ?b"
    by simp_all
  from bit_length_pos[OF npos] have bpos: "0 < ?b" .
  have fl: "floor_log2 \<bar>of_int n :: rat\<bar> = int ?b - 1"
    using floor_log2_of_int[OF a1] by (simp only: of_int_abs)
  from bpos have e: "max (floor_log2 \<bar>of_int n :: rat\<bar>) (- 1022) = int ?b - 1"
    by (simp add: fl)
  from lo bound have "(2::nat) ^ (?b - 1) \<le> 2 ^ 53"
    by (metis (no_types, opaque_lifting) le_trans nat_le_iff nat_numeral nat_power_eq
        of_nat_numeral zero_le_numeral of_nat_power)
  then have b54: "?b - 1 \<le> 53"
    by (rule power_le_imp_le_exp[of "2::nat", rotated]) simp
  have small: "\<bar>of_int n :: rat\<bar> < pow2 1024"
  proof -
    have "\<bar>of_int n :: rat\<bar> = of_int ?a" by simp
    also from bound have "\<dots> \<le> of_int (2 ^ 53)" by (simp only: of_int_le_iff)
    also have "\<dots> < pow2 1024" by (simp add: pow2_def)
    finally show ?thesis .
  qed
  have "\<exists>k. (of_int n :: rat) / pow2 (int ?b - 1 - 52) = of_int k"
  proof (cases "?b - 1 \<le> 52")
    case True
    with bpos have "int ?b - 1 - 52 \<le> 0" by simp
    then have "pow2 (int ?b - 1 - 52) = 1 / 2 ^ nat (- (int ?b - 1 - 52))" by (rule pow2_neg)
    then have "(of_int n :: rat) / pow2 (int ?b - 1 - 52)
                 = of_int (n * 2 ^ nat (- (int ?b - 1 - 52)))" by simp
    then show ?thesis by blast
  next
    case False
    with b54 have b: "?b = 54" by simp
    with lo bound have "?a = 2 ^ 53" by simp
    then have n2: "n = 2 ^ 53 \<or> n = - (2 ^ 53)" by (simp add: abs_if split: if_splits)
    have pw: "pow2 (int ?b - 1 - 52) = 2" by (simp add: b pow2_def)
    from n2 show ?thesis
    proof
      assume "n = 2 ^ 53"
      then have "(of_int n :: rat) / 2 = of_int (2 ^ 52)" by simp
      then show ?thesis unfolding pw by blast
    next
      assume "n = - (2 ^ 53)"
      then have "(of_int n :: rat) / 2 = of_int (- (2 ^ 52))" by simp
      then show ?thesis unfolding pw by blast
    qed
  qed
  then obtain k where k: "(of_int n :: rat) / pow2 (int ?b - 1 - 52) = of_int k" by blast
  from n0 have "(of_int n :: rat) \<noteq> 0" by simp
  from round_double_exact_ulp[OF this e k small] show ?thesis .
qed

lemma num_add_one_exact:
  assumes "- (2 ^ 53) \<le> n" and "n < 2 ^ 53"
  shows "num_add (Finite (of_int n)) (Finite 1) = Finite (of_int (n + 1))"
proof (cases "n + 1 = 0")
  case True
  then have "(of_int n :: rat) + 1 = 0" by (metis of_int_1 of_int_add of_int_0)
  with True show ?thesis by (simp add: num_add_def round_double_def)
next
  case False
  from assms have "\<bar>n + 1\<bar> \<le> 2 ^ 53" by simp
  from round_double_of_int[OF False this] show ?thesis
    by (simp add: num_add_def)
qed

lemma bit_length_2_53: "bit_length 9007199254740993 = 54"
  by (simp add: bit_length.simps)

lemma floor_half_2_53: "\<lfloor>9007199254740993 / 2 :: rat\<rfloor> = 4503599627370496"
  by (rule floor_unique) simp_all

lemma num_add_one_2_53: "num_add (Finite (2 ^ 53)) (Finite 1) = Finite (2 ^ 53)"
  by (simp add: num_add_def round_double_def floor_log2_def bit_length_2_53
      round_half_even_def pow2_def Let_def floor_half_2_53)

lemma moves_move:
  "v \<noteq> Undefined \<Longrightarrow> moves (move v st) = num_add (moves st) (Finite 1)"
  by (simp add: move_def setActiveId_def setMoves_def activeId_listener_def Let_def)

text \<open>
  C6. \<open>move(undefined)\<close> changes no field of the state. For every other argument
  (an id or \<open>null\<close>), \<open>move\<close> sets \<open>activeId\<close> to the argument, replaces \<open>moves\<close> by
  the number \<open>moves + 1\<close> and leaves every other field as it was. The number
  \<open>moves + 1\<close> is one more than \<open>moves\<close> whenever \<open>moves\<close> is an integer \<open>n\<close> with
  \<open>- (2 ^ 53) \<le> n < 2 ^ 53\<close>, as it is for a counter that starts at the default \<open>0\<close>.
\<close>

theorem move_commits:
  "move Undefined st = st
   \<and> (v \<noteq> Undefined \<longrightarrow>
        move v st = st\<lparr>moves := num_add (moves st) (Finite 1), activeId := v\<rparr>)
   \<and> (v \<noteq> Undefined \<and> moves st = Finite (of_int n) \<and> - (2 ^ 53) \<le> n \<and> n < 2 ^ 53 \<longrightarrow>
        move v st = st\<lparr>moves := Finite (of_int (n + 1)), activeId := v\<rparr>)"
proof -
  have none: "move Undefined st = st"
    by (simp add: move_def)
  have some: "move v st = st\<lparr>moves := num_add (moves st) (Finite 1), activeId := v\<rparr>"
    if "v \<noteq> Undefined"
    using that
    by (simp add: move_def setActiveId_def setMoves_def activeId_listener_def getActiveId_def
        Let_def)
  have exact: "move v st = st\<lparr>moves := Finite (of_int (n + 1)), activeId := v\<rparr>"
    if "v \<noteq> Undefined" "moves st = Finite (of_int n)" "- (2 ^ 53) \<le> n" "n < 2 ^ 53"
    using some [OF that(1)] num_add_one_exact [OF that(3) that(4)] that(2)
    by simp
  from none some exact show ?thesis
    by blast
qed

theorem move_commits_witness:
  "move Undefined (rendered [enabledItem ''A'' None] (Id ''A'')) = rendered [enabledItem ''A'' None] (Id ''A'')
   \<and> Null \<noteq> Undefined
   \<and> moves (rendered [enabledItem ''A'' None] (Id ''A'')) = Finite (of_int 0)
   \<and> - (2 ^ 53) \<le> (0 :: int) \<and> (0 :: int) < 2 ^ 53
   \<and> move Null (rendered [enabledItem ''A'' None] (Id ''A''))
       = (rendered [enabledItem ''A'' None] (Id ''A''))\<lparr>moves := Finite 1, activeId := Null\<rparr>
   \<and> move (Id ''B'') (rendered [enabledItem ''A'' None] (Id ''A''))
       = (rendered [enabledItem ''A'' None] (Id ''A''))\<lparr>moves := Finite 1, activeId := Id ''B''\<rparr>"
proof -
  let ?st = "rendered [enabledItem ''A'' None] (Id ''A'')"
  have m: "moves ?st = Finite (of_int 0)"
    by (simp add: rendered_def initialState_def)
  have b: "- (2 ^ 53) \<le> (0 :: int)" "(0 :: int) < 2 ^ 53"
    by simp_all
  have u: "move Undefined ?st = ?st"
    using move_commits [of ?st Null 0] by (rule conjunct1)
  have n: "move Null ?st = ?st\<lparr>moves := Finite 1, activeId := Null\<rparr>"
    using move_commits [of ?st Null 0, THEN conjunct2, THEN conjunct2] m b by simp
  have i: "move (Id ''B'') ?st = ?st\<lparr>moves := Finite 1, activeId := Id ''B''\<rparr>"
    using move_commits [of ?st "Id ''B''" 0, THEN conjunct2, THEN conjunct2] m b by simp
  from u m b n i show ?thesis
    by simp
qed

text \<open>
  C6, as the specification words it (\<open>moves\<close> is incremented by exactly one), fails
  where the counter has reached \<open>2 ^ 53\<close>: after \<open>setMoves(2 ** 53)\<close>, \<open>move("B")\<close> sets
  \<open>activeId\<close> and leaves \<open>moves\<close> at \<open>2 ^ 53\<close>.
\<close>

theorem move_at_2_53_counterexample:
  "moves (move (Id ''B'')
       (setMoves (Finite (2 ^ 53)) (rendered [enabledItem ''A'' None] (Id ''A''))))
     = Finite (2 ^ 53)
   \<and> activeId (move (Id ''B'')
       (setMoves (Finite (2 ^ 53)) (rendered [enabledItem ''A'' None] (Id ''A''))))
     = Id ''B''
   \<and> Finite (2 ^ 53) \<noteq> Finite (2 ^ 53 + 1)"
proof -
  let ?st = "setMoves (Finite (2 ^ 53)) (rendered [enabledItem ''A'' None] (Id ''A''))"
  have m: "moves ?st = Finite (2 ^ 53)"
    by (simp add: setMoves_def)
  have "moves (move (Id ''B'') ?st) = num_add (moves ?st) (Finite 1)"
    by (rule moves_move) simp
  then have 1: "moves (move (Id ''B'') ?st) = Finite (2 ^ 53)"
    by (simp only: m num_add_one_2_53)
  have 2: "activeId (move (Id ''B'') ?st) = Id ''B''"
    by (simp add: move_def setActiveId_def setMoves_def activeId_listener_def getActiveId_def
        rendered_def initialState_def enabledItem_def is_disabled_def Let_def)
  have 3: "Finite (2 ^ 53) \<noteq> Finite (2 ^ 53 + 1)"
    by simp
  from 1 2 3 show ?thesis
    by blast
qed

subsection \<open>Registering and unregistering an item\<close>

text \<open>
  The spread overwrites a property of \<^verbatim>\<open>prevItem\<close> with the value that \<^verbatim>\<open>item\<close> has for
  it, also with \<^verbatim>\<open>undefined\<close>, and keeps the properties that \<^verbatim>\<open>item\<close> does not have.
\<close>

lemma spread_overwrites_with_undefined:
  "spread [(''id'', JString ''a''), (''rowId'', JString ''r'')]
          [(''id'', JString ''a''), (''rowId'', JUndefined), (''disabled'', JBool True)]
     = [(''id'', JString ''a''), (''rowId'', JUndefined), (''disabled'', JBool True)]"
  by (simp add: spread_def)

text \<open>
  C7. For every list of items and every item, \<open>registerItem(item)\<close> followed by the
  unregister function it returned gives back the list as it was, in the same order: the
  previous entry with the same id is put back at its index, or the new item is removed.
\<close>

theorem registerItem_unregister_roundtrip:
  "\<exists>its' reg. registerItem item its = (Some its', reg)
            \<and> unregisterItem item reg its' = Some its"
proof (cases "List.find (\<lambda>i. get_property i ''id'' = get_property item ''id'') its")
  case None
  then show ?thesis
    by (simp add: registerItem_def unregisterItem_def find_None_filter_neq)
next
  case (Some p)
  from find_Some_findIndex_eq [OF Some] obtain i where
    i: "findIndex (\<lambda>y. y = p) its = Some i" "i < length its" "its ! i = p"
    by blast
  have "its[i := p] = its"
    using i(3) list_update_id [of its i] by simp
  then show ?thesis
    using Some i
    by (simp add: registerItem_def unregisterItem_def indexOf_def assign_at_def Let_def)
qed

subsection \<open>The two composite stores\<close>

lemma NULL_ITEM_cb_eq: "NULL_ITEM_cb = NULL_ITEM"
  by (simp add: NULL_ITEM_cb_def NULL_ITEM_def)

lemma findFirstEnabledItem_cb_eq: "findFirstEnabledItem_cb = findFirstEnabledItem"
  by (simp add: fun_eq_iff findFirstEnabledItem_cb_def findFirstEnabledItem_def)

lemma getEnabledItems_cb_eq: "getEnabledItems_cb = getEnabledItems"
  by (simp add: fun_eq_iff getEnabledItems_cb_def getEnabledItems_def)

lemma getOppositeOrientation_cb_eq: "getOppositeOrientation_cb = getOppositeOrientation"
  by (simp add: fun_eq_iff getOppositeOrientation_cb_def getOppositeOrientation_def)

lemma getItemsInRow_cb_eq: "getItemsInRow_cb = getItemsInRow"
  by (simp add: fun_eq_iff getItemsInRow_cb_def getItemsInRow_def)

lemma flipItems_cb_eq: "flipItems_cb = flipItems"
  unfolding fun_eq_iff flipItems_cb_def flipItems_def NULL_ITEM_cb_eq by simp

lemma getActiveId_cb_eq: "getActiveId_cb = getActiveId"
  by (simp add: fun_eq_iff getActiveId_cb_def getActiveId_def findFirstEnabledItem_cb_eq)

lemma pushToRow_cb_eq: "pushToRow_cb item rows = pushToRow item rows"
  by (induction rows) simp_all

lemma groupItemsByRows_cb_eq: "groupItemsByRows_cb = groupItemsByRows"
  by (simp add: fun_eq_iff groupItemsByRows_cb_def groupItemsByRows_def pushToRow_cb_eq)

lemma getMaxRowLength_cb_eq: "getMaxRowLength_cb = getMaxRowLength"
  by (simp add: fun_eq_iff getMaxRowLength_cb_def getMaxRowLength_def)

lemma createEmptyItem_cb_eq: "createEmptyItem_cb = createEmptyItem"
  by (simp add: fun_eq_iff createEmptyItem_cb_def createEmptyItem_def)

lemma normalizeCell_cb_eq: "normalizeCell_cb = normalizeCell"
  unfolding fun_eq_iff normalizeCell_cb_def normalizeCell_def findFirstEnabledItem_cb_eq
    createEmptyItem_cb_eq by simp

lemma normalizeRows_cb_eq: "normalizeRows_cb = normalizeRows"
  by (simp add: fun_eq_iff normalizeRows_cb_def normalizeRows_def normalizeCell_cb_eq
      getMaxRowLength_cb_eq)

lemma verticalizeItems_cb_eq: "verticalizeItems_cb = verticalizeItems"
  by (simp add: fun_eq_iff verticalizeItems_cb_def verticalizeItems_def groupItemsByRows_cb_eq
      getMaxRowLength_cb_eq)

lemma getNextId_cb_eq: "getNextId_cb = getNextId"
  unfolding fun_eq_iff getNextId_cb_def getNextId_def findFirstEnabledItem_cb_eq
    getEnabledItems_cb_eq getOppositeOrientation_cb_eq getItemsInRow_cb_eq flipItems_cb_eq
  by simp

lemma activeId_listener_cb_eq: "activeId_listener_cb = activeId_listener"
  by (simp add: fun_eq_iff activeId_listener_cb_def activeId_listener_def getActiveId_cb_eq)

lemma setActiveId_cb_eq: "setActiveId_cb = setActiveId"
  by (simp add: fun_eq_iff setActiveId_cb_def setActiveId_def activeId_listener_cb_eq)

lemma setMoves_cb_eq: "setMoves_cb = setMoves"
  by (simp add: fun_eq_iff setMoves_cb_def setMoves_def)

text \<open>
  C9. On every composite state, the composite store of \<^verbatim>\<open>ariakit-core\<close> and the one
  embedded in \<^verbatim>\<open>store-combobox-popover.ts\<close> return the same id from \<open>next(skip)\<close>,
  \<open>previous(skip)\<close>, \<open>up(skip)\<close>, \<open>down(skip)\<close>, \<open>first()\<close> and \<open>last()\<close>, and
  \<open>move(id)\<close> leads to the same state.
\<close>

theorem composite_stores_agree:
  "next_id_cb st skip = next_id st skip
   \<and> previous_cb st skip = previous st skip
   \<and> up_cb st skip = up st skip
   \<and> down_cb st skip = down st skip
   \<and> first_cb st = first st
   \<and> last_id_cb st = last_id st
   \<and> move_cb v st = move v st"
  unfolding next_id_cb_def next_id_def previous_cb_def previous_def up_cb_def up_def
    down_cb_def down_def first_cb_def first_def last_id_cb_def last_id_def move_cb_def
    move_def getNextId_cb_eq findFirstEnabledItem_cb_eq verticalizeItems_cb_eq
    normalizeRows_cb_eq groupItemsByRows_cb_eq setActiveId_cb_eq setMoves_cb_eq
  by simp

subsection \<open>The listener on \<open>renderedItems\<close> and \<open>activeId\<close>\<close>

text \<open>
  C3, as the code has it. The listener that runs when \<open>renderedItems\<close> or \<open>activeId\<close>
  changes sets \<open>activeId\<close> to the first enabled item's id only when \<open>activeId\<close> is
  \<open>undefined\<close>; an \<open>activeId\<close> that is \<open>null\<close> or a string is left as it is, whether
  or not an item with that id is rendered. The same holds after \<open>setRenderedItems\<close> and
  \<open>setActiveId\<close>.
\<close>

theorem activeId_listener_fills_undefined_only:
  "activeId (activeId_listener st) = (if activeId st = Undefined then first st else activeId st)
   \<and> activeId (setRenderedItems its st) =
       (if activeId st = Undefined \<and> its \<noteq> renderedItems st
        then first (st\<lparr>renderedItems := its\<rparr>) else activeId st)
   \<and> activeId (setActiveId v st) =
       (if v = Undefined \<and> activeId st \<noteq> Undefined then first st else v)"
  by (auto simp add: activeId_listener_def setRenderedItems_def setActiveId_def getActiveId_def
      first_def)

text \<open>
  C3 as stated fails: with \<open>A\<close> and \<open>B\<close> rendered and \<open>A\<close> active, removing \<open>A\<close> from
  the rendered items leaves \<open>activeId = "A"\<close>, which no rendered item has, although the
  enabled item \<open>B\<close> is there.
\<close>

theorem stale_activeId_counterexample:
  "activeId (setRenderedItems [enabledItem ''B'' None]
               (rendered [enabledItem ''A'' None, enabledItem ''B'' None] (Id ''A''))) = Id ''A''
   \<and> Some ''A'' \<notin> item_id ` set (renderedItems (setRenderedItems [enabledItem ''B'' None]
               (rendered [enabledItem ''A'' None, enabledItem ''B'' None] (Id ''A''))))
   \<and> first (setRenderedItems [enabledItem ''B'' None]
               (rendered [enabledItem ''A'' None, enabledItem ''B'' None] (Id ''A''))) = Id ''B''"
  by (simp add: setRenderedItems_def rendered_def initialState_def activeId_listener_def
      getActiveId_def enabledItem_def first_def findFirstEnabledItem_def truthy_str_def
      is_disabled_def id_of_def)

subsection \<open>\<open>first()\<close> and \<open>last()\<close>\<close>

lemma find_as_filter:
  "List.find P xs = (case filter P xs of [] \<Rightarrow> None | x # _ \<Rightarrow> Some x)"
  by (induction xs) auto

lemma find_rev_as_filter:
  "List.find P (rev xs) = (case filter P xs of [] \<Rightarrow> None | y # ys \<Rightarrow> Some (last (y # ys)))"
proof -
  have "List.find P (rev xs) = (case rev (filter P xs) of [] \<Rightarrow> None | x # _ \<Rightarrow> Some x)"
    by (simp add: find_as_filter rev_filter)
  also have "\<dots> = (case filter P xs of [] \<Rightarrow> None | y # ys \<Rightarrow> Some (last (y # ys)))"
  proof (cases "filter P xs" rule: rev_cases)
    case Nil
    then show ?thesis by simp
  next
    case (snoc ys y)
    then show ?thesis by (cases ys) simp_all
  qed
  finally show ?thesis .
qed

text \<open>
  C5, as the code has it. \<open>first()\<close> returns the id of the first and \<open>last()\<close> the id of
  the last of the enabled rendered items, in render order, and \<open>undefined\<close> when there is
  none. Neither depends on \<open>activeId\<close>, \<open>rtl\<close> or \<open>orientation\<close>: no reversal is applied.
\<close>

theorem first_last_ignore_direction:
  "first st = (case filter (\<lambda>i. \<not> is_disabled i) (renderedItems st) of
                 [] \<Rightarrow> Undefined | x # _ \<Rightarrow> id_of (Some x))
   \<and> last_id st = (case filter (\<lambda>i. \<not> is_disabled i) (renderedItems st) of
                    [] \<Rightarrow> Undefined | y # ys \<Rightarrow> id_of (Some (last (y # ys))))
   \<and> first (st\<lparr>activeId := v, rtl := r, orientation := ori\<rparr>) = first st
   \<and> last_id (st\<lparr>activeId := v, rtl := r, orientation := ori\<rparr>) = last_id st"
  by (simp add: first_def last_id_def findFirstEnabledItem_def reverseArray_def truthy_str_def
      find_as_filter [of _ "renderedItems st"] find_rev_as_filter id_of_def split: list.splits)

text \<open>
  C5 as stated fails: with \<open>rtl\<close> set and a horizontal orientation, \<open>first()\<close> on the
  rendered items \<open>[A, B]\<close> still returns \<open>A\<close>, where the reversed order starts with \<open>B\<close>.
\<close>

theorem first_rtl_counterexample:
  "first ((rendered [enabledItem ''A'' None, enabledItem ''B'' None] (Id ''A''))
            \<lparr>rtl := True, orientation := Horizontal\<rparr>) = Id ''A''
   \<and> first_rtl_spec ((rendered [enabledItem ''A'' None, enabledItem ''B'' None] (Id ''A''))
            \<lparr>rtl := True, orientation := Horizontal\<rparr>) = Id ''B''"
  by (simp add: first_def first_rtl_spec_def rendered_def initialState_def enabledItem_def
      findFirstEnabledItem_def truthy_str_def is_disabled_def id_of_def)

subsection \<open>Tooltips\<close>

text \<open>
  C8. When the disclosure of a tooltip store opens while another tooltip store holds the
  shared \<open>activeRef\<close>, the listener schedules no timer, the tooltip is open when the
  listener returns, it holds \<open>activeRef\<close>, and the tooltip that held it before is closed.
  When the tooltip's own timeout is zero, it is likewise opened at once with no timer.
\<close>

theorem tooltip_opens_at_once:
  assumes reg: "tooltipOf w r2 = Some t2"
  shows "(activeRef w = Some r1 \<and> r1 \<noteq> r2 \<longrightarrow>
            snd (disclosure_listener r2 True prev w) = None
          \<and> is_open (fst (disclosure_listener r2 True prev w)) r2
          \<and> \<not> is_open (fst (disclosure_listener r2 True prev w)) r1
          \<and> activeRef (fst (disclosure_listener r2 True prev w)) = Some r2)
       \<and> (timeout t2 = 0 \<longrightarrow>
            snd (disclosure_listener r2 True prev w) = None
          \<and> is_open (fst (disclosure_listener r2 True prev w)) r2
          \<and> activeRef (fst (disclosure_listener r2 True prev w)) = Some r2)"
  using reg
  by (auto simp add: disclosure_listener_def Let_def set_open_def set_activeRef_def
      activeRef_listeners_def is_open_def split: option.splits)

text \<open>
  The scenario: tooltip 1, with a timeout of 500, opens: a timer of 500 is scheduled, and
  when it fires tooltip 1 is open. Then the disclosure of tooltip 2 opens: no timer,
  tooltip 2 is open and tooltip 1 is closed.
\<close>

theorem tooltip_opens_at_once_witness:
  "snd (disclosure_listener 1 True False (two_tooltips 500 500)) = Some (500, Acquire 1)
   \<and> is_open (fire (Acquire 1) (fst (disclosure_listener 1 True False (two_tooltips 500 500)))) 1
   \<and> snd (disclosure_listener 2 True False
            (fire (Acquire 1) (fst (disclosure_listener 1 True False (two_tooltips 500 500))))) = None
   \<and> is_open (fst (disclosure_listener 2 True False
            (fire (Acquire 1) (fst (disclosure_listener 1 True False (two_tooltips 500 500)))))) 2
   \<and> \<not> is_open (fst (disclosure_listener 2 True False
            (fire (Acquire 1) (fst (disclosure_listener 1 True False (two_tooltips 500 500)))))) 1"
proof -
  let ?w1 = "fst (disclosure_listener 1 True False (two_tooltips 500 500))"
  let ?w2 = "fire (Acquire 1) ?w1"
  have t1: "snd (disclosure_listener 1 True False (two_tooltips 500 500)) = Some (500, Acquire 1)"
    by (simp add: disclosure_listener_def two_tooltips_def Let_def set_activeRef_def)
  have w2: "activeRef ?w2 = Some 1"
    "tooltipOf ?w2 2 = Some \<lparr>timeout = 500, tooltip_open = False\<rparr>"
    "is_open ?w2 1"
    by (simp_all add: disclosure_listener_def two_tooltips_def Let_def set_activeRef_def
        fire_def activeRef_listeners_def is_open_def)
  from tooltip_opens_at_once [OF w2(2), of 1 False] w2(1) t1 w2(3)
  show ?thesis by simp
qed

subsection \<open>\<open>next()\<close> from the last enabled item of a single row\<close>

lemma canLoop_loop_applies:
  "(truthy_opt f \<and> differs f (getOppositeOrientation ori)) = loop_applies f ori"
proof (cases f)
  case (FBool b)
  then show ?thesis
    by (cases ori) (auto simp: truthy_opt_def differs_def loop_applies_def)
next
  case (FOrient x)
  then show ?thesis
    by (cases ori; cases x)
       (auto simp: truthy_opt_def differs_def getOppositeOrientation_def loop_applies_def)
qed

lemma findIndex_append_first:
  "(\<forall>y\<in>set pre. \<not> P y) \<Longrightarrow> P x \<Longrightarrow> findIndex P (pre @ x # post) = Some (length pre)"
  by (induction pre) auto

lemma find_rev_Some_split:
  "List.find Q (rev xs) = Some x \<Longrightarrow>
     \<exists>pre post. xs = pre @ x # post \<and> Q x \<and> (\<forall>y\<in>set post. \<not> Q y)"
proof (induction xs rule: rev_induct)
  case Nil
  then show ?case by simp
next
  case (snoc y ys)
  show ?case
  proof (cases "Q y")
    case True
    with snoc.prems have "x = y" by simp
    with True show ?thesis by (intro exI[of _ ys] exI[of _ "[]"]) simp
  next
    case False
    with snoc.prems have "List.find Q (rev ys) = Some x" by simp
    from snoc.IH[OF this] obtain pre post where
      "ys = pre @ x # post" "Q x" "\<forall>y\<in>set post. \<not> Q y" by blast
    with False show ?thesis
      by (intro exI[of _ pre] exI[of _ "post @ [y]"]) simp
  qed
qed

lemma find_None_all: "(\<forall>y\<in>set xs. \<not> P y) \<Longrightarrow> List.find P xs = None"
  by (induction xs) auto

lemma find_append:
  "List.find P (xs @ ys) = (case List.find P xs of None \<Rightarrow> List.find P ys | Some x \<Rightarrow> Some x)"
  by (induction xs) auto

lemma find_cong_set: "(\<forall>y\<in>set xs. P y = Q y) \<Longrightarrow> List.find P xs = List.find Q xs"
  by (induction xs) auto

text \<open>
  C1, as the code has it. In a single row (no item has a \<open>rowId\<close>) of items with
  distinct ids, with no RTL reversal in effect and \<open>activeId\<close> the id of the last enabled
  item: \<open>next()\<close> returns \<open>undefined\<close> when \<open>focusLoop\<close> does not apply; when it applies,
  \<open>next()\<close> returns \<open>null\<close> if \<open>includesBaseElement\<close> is set, and otherwise the id of
  the first enabled item, or \<open>undefined\<close> if that is the active item itself.
\<close>

theorem next_from_last_enabled:
  assumes single: "\<forall>i\<in>set (renderedItems st). rowId i = None"
    and dist: "distinct (map item_id (renderedItems st))"
    and act: "activeId st = Id a"
    and lst: "last_id st = Id a"
    and ltr: "\<not> (rtl st \<and> orientation st \<noteq> Vertical)"
  shows "(\<not> loop_applies (focusLoop st) (orientation st) \<longrightarrow> next_id st None = Undefined)
       \<and> (loop_applies (focusLoop st) (orientation st) \<and> includesBaseElement st \<longrightarrow>
            next_id st None = Null)
       \<and> (loop_applies (focusLoop st) (orientation st) \<and> \<not> includesBaseElement st \<longrightarrow>
            next_id st None = (if first st = Id a then Undefined else first st))"
proof -
  let ?R = "renderedItems st"
  let ?en = "\<lambda>i. \<not> is_disabled i"
  let ?ex = "\<lambda>item. if truthy_str (Some a) then \<not> is_disabled item \<and> item_id item \<noteq> Some a
                     else \<not> is_disabled item"
  from lst obtain x where fx: "List.find ?en (rev ?R) = Some x" and idx: "item_id x = Some a"
    by (auto simp: last_id_def id_of_def findFirstEnabledItem_def reverseArray_def
        truthy_str_def split: option.splits)
  from find_rev_Some_split[OF fx] obtain pre post where
    R: "?R = pre @ x # post" and enx: "\<not> is_disabled x"
    and post: "\<forall>y\<in>set post. is_disabled y"
    by auto
  from dist R idx have pre_ids: "\<forall>y\<in>set pre. item_id y \<noteq> Some a"
    by (auto simp: image_iff)
  then have fi: "findIndex (\<lambda>item. item_id item = Some a) ?R = Some (length pre)"
    using idx R findIndex_append_first[of pre "\<lambda>item. item_id item = Some a" x post] by simp
  from single R have rows: "rowId x = None" "\<forall>y\<in>set post. rowId y = None"
    by auto
  have nth: "?R ! length pre = x" using R by simp
  have drp: "drop (Suc (length pre)) ?R = post" using R by simp
  have tk: "take (length pre) ?R = pre" using R by simp
  have inrow_post: "getItemsInRow post None = post"
    using rows by (simp add: getItemsInRow_def)
  have inrow_R: "getItemsInRow ?R None = ?R"
    using single by (simp add: getItemsInRow_def)
  have find_post: "findFirstEnabledItem post (Some a) = None"
    unfolding findFirstEnabledItem_def using post by (intro find_None_all) auto
  have find_pre: "findFirstEnabledItem pre (Some a) = List.find ?en pre"
    unfolding findFirstEnabledItem_def using pre_ids by (intro find_cong_set) auto
  have first_eq:
    "first st = (case List.find ?en pre of None \<Rightarrow> Id a | Some y \<Rightarrow> id_of (Some y))"
    using R enx idx
    by (simp add: first_def findFirstEnabledItem_def truthy_str_def find_append id_of_def
        split: option.splits)
  have pre_ne: "List.find ?en pre = Some y \<Longrightarrow> id_of (Some y) \<noteq> Id a" for y
    using pre_ids by (auto simp: id_of_def find_Some_iff split: option.splits)
  have noRTL: "(if rtl st \<and> orientation st \<noteq> Vertical then reverseArray ?R else ?R) = ?R"
    using ltr by auto
  have flip: "flipItems ?R a h = post @ (if h then [NULL_ITEM] else []) @ pre" for h
    using fi drp tk by (simp add: flipItems_def)
  have null_ok: "?ex NULL_ITEM"
    by (simp add: NULL_ITEM_def is_disabled_def)
  have c1: "\<not> loop_applies (focusLoop st) (orientation st) \<Longrightarrow> next_id st None = Undefined"
    using act fi nth drp rows(1) inrow_post find_post noRTL
    by (simp add: next_id_def getNextId_def Let_def canLoop_loop_applies truthy_str_def
        id_of_def)
  have c2: "loop_applies (focusLoop st) (orientation st) \<Longrightarrow> includesBaseElement st \<Longrightarrow>
      next_id st None = Null"
  proof -
    assume la: "loop_applies (focusLoop st) (orientation st)" and ib: "includesBaseElement st"
    have "findFirstEnabledItem (post @ [NULL_ITEM] @ pre) (Some a) = Some NULL_ITEM"
      using find_post null_ok by (simp add: findFirstEnabledItem_def find_append)
    moreover have "id_of (Some NULL_ITEM) = Null"
      by (simp add: id_of_def NULL_ITEM_def)
    ultimately show ?thesis
      using act fi nth drp rows(1) inrow_R flip[of True] noRTL la ib
      by (simp add: next_id_def getNextId_def Let_def canLoop_loop_applies truthy_str_def)
  qed
  have c3: "loop_applies (focusLoop st) (orientation st) \<Longrightarrow> \<not> includesBaseElement st \<Longrightarrow>
      next_id st None = (if first st = Id a then Undefined else first st)"
  proof -
    assume la: "loop_applies (focusLoop st) (orientation st)"
      and nb: "\<not> includesBaseElement st"
    have "next_id st None = id_of (findFirstEnabledItem (post @ pre) (Some a))"
      using act fi nth drp rows(1) inrow_R flip[of False] noRTL la nb
      by (simp add: next_id_def getNextId_def Let_def canLoop_loop_applies truthy_str_def)
    also have "findFirstEnabledItem (post @ pre) (Some a) = List.find ?en pre"
      using find_post find_pre by (simp add: findFirstEnabledItem_def find_append)
    finally show ?thesis
      using first_eq pre_ne by (auto simp: id_of_def split: option.splits)
  qed
  from c1 c2 c3 show ?thesis by blast
qed

text \<open>
  The scenario: items \<open>[A, B, C]\<close> in a single row with \<open>C\<close> active and default options:
  \<open>next()\<close> returns \<open>undefined\<close>, and \<open>A\<close> once \<open>focusLoop\<close> is \<open>true\<close>.
\<close>

theorem next_from_last_enabled_witness:
  "next_id (rendered [enabledItem ''A'' None, enabledItem ''B'' None, enabledItem ''C'' None]
              (Id ''C'')) None = Undefined
   \<and> next_id ((rendered [enabledItem ''A'' None, enabledItem ''B'' None, enabledItem ''C'' None]
              (Id ''C''))\<lparr>focusLoop := FBool True\<rparr>) None = Id ''A''"
  using next_from_last_enabled
          [of "rendered [enabledItem ''A'' None, enabledItem ''B'' None, enabledItem ''C'' None]
                 (Id ''C'')" "''C''"]
        next_from_last_enabled
          [of "(rendered [enabledItem ''A'' None, enabledItem ''B'' None, enabledItem ''C'' None]
                 (Id ''C''))\<lparr>focusLoop := FBool True\<rparr>" "''C''"]
  by (simp add: rendered_def initialState_def enabledItem_def last_id_def first_def
      findFirstEnabledItem_def reverseArray_def truthy_str_def is_disabled_def id_of_def
      loop_applies_def)

text \<open>
  C1 as stated fails in three ways, each on the items \<open>[A, B, C]\<close> (or \<open>[A]\<close>) with the
  last one active: with \<open>focusLoop\<close> and \<open>includesBaseElement\<close> set, \<open>next()\<close> returns
  \<open>null\<close>, not \<open>A\<close>; with \<open>rtl\<close> set and no loop it returns \<open>B\<close>, not \<open>undefined\<close>;
  and when the active item is the only one, \<open>next()\<close> with \<open>focusLoop\<close> returns
  \<open>undefined\<close>, not the first enabled item's id.
\<close>

theorem next_from_last_enabled_counterexample:
  "next_id ((rendered [enabledItem ''A'' None, enabledItem ''B'' None, enabledItem ''C'' None]
              (Id ''C''))\<lparr>focusLoop := FBool True, includesBaseElement := True\<rparr>) None = Null
   \<and> next_id ((rendered [enabledItem ''A'' None, enabledItem ''B'' None, enabledItem ''C'' None]
              (Id ''C''))\<lparr>rtl := True\<rparr>) None = Id ''B''
   \<and> next_id ((rendered [enabledItem ''A'' None] (Id ''A''))\<lparr>focusLoop := FBool True\<rparr>) None
       = Undefined"
  by code_simp

subsection \<open>Navigation only returns ids of rendered items\<close>

lemma from_rendered_id:
  assumes "from_rendered R i" and "\<not> is_disabled i"
  shows "rendered_id R (id_of (Some i))"
proof (cases "item_id i")
  case None
  then show ?thesis by (simp add: rendered_id_def id_of_def)
next
  case (Some s)
  with assms obtain j where "j \<in> set R" "\<not> is_disabled j" "item_id j = Some s"
    by (auto simp: from_rendered_def)
  then have "\<exists>j\<in>set R. \<not> is_disabled j \<and> id_of (Some j) = Id s"
    by (intro bexI[of _ j]) (simp_all add: id_of_def)
  with Some show ?thesis by (simp add: rendered_id_def id_of_def)
qed

lemma id_of_None: "id_of None = Undefined"
  by (simp add: id_of_def)

lemma from_rendered_self: "i \<in> set R \<Longrightarrow> from_rendered R i"
  by (auto simp: from_rendered_def)

lemma from_rendered_NULL: "from_rendered R NULL_ITEM"
  by (simp add: from_rendered_def NULL_ITEM_def)

lemma from_rendered_empty: "from_rendered R (createEmptyItem rid)"
  by (simp add: from_rendered_def createEmptyItem_def is_disabled_def)

lemma rendered_id_find:
  assumes "\<forall>i\<in>set ys. from_rendered R i"
  shows "rendered_id R (id_of (findFirstEnabledItem ys ex))"
proof (cases "findFirstEnabledItem ys ex")
  case None
  then show ?thesis by (simp add: rendered_id_def id_of_def)
next
  case (Some x)
  then have "x \<in> set ys" "\<not> is_disabled x"
    by (auto simp: findFirstEnabledItem_def find_Some_iff split: if_splits)
  with assms Some show ?thesis by (simp add: from_rendered_id)
qed

lemma rendered_id_enabled_elem:
  assumes "\<forall>i\<in>set ys. from_rendered R i" and "x \<in> set (getEnabledItems ys ex)"
  shows "rendered_id R (id_of (Some x))"
proof -
  from assms(2) have "x \<in> set ys" "\<not> is_disabled x"
    by (auto simp: getEnabledItems_def split: if_splits)
  with assms(1) show ?thesis by (simp add: from_rendered_id)
qed

lemma set_flipItems: "set (flipItems its a h) \<subseteq> insert NULL_ITEM (set its)"
  by (auto simp: flipItems_def split: option.splits dest: in_set_dropD in_set_takeD in_set_butlastD)

lemma rendered_id_skip:
  assumes "\<forall>i\<in>set ys. from_rendered R i"
  shows "rendered_id R (id_of (case first_opt (slice_from (getEnabledItems ys ex) k) of
                                  Some i \<Rightarrow> Some i
                                | None \<Rightarrow> last_opt (getEnabledItems ys ex)))"
proof (cases "first_opt (slice_from (getEnabledItems ys ex) k)")
  case None
  show ?thesis
  proof (cases "getEnabledItems ys ex = []")
    case True
    with None show ?thesis by (simp add: last_opt_def rendered_id_def id_of_def)
  next
    case False
    then have "last (getEnabledItems ys ex) \<in> set (getEnabledItems ys ex)" by simp
    from rendered_id_enabled_elem[OF assms this] None False
    show ?thesis by (simp add: last_opt_def)
  qed
next
  case (Some x)
  then have "x \<in> set (slice_from (getEnabledItems ys ex) k)"
    by (auto simp: first_opt_def split: list.splits)
  then have "x \<in> set (getEnabledItems ys ex)"
    by (auto simp: slice_from_def split: if_splits dest: in_set_dropD)
  from rendered_id_enabled_elem[OF assms this] Some show ?thesis by simp
qed

lemma rendered_id_or_null:
  "rendered_id R r \<Longrightarrow> rendered_id R (case r of Id s \<Rightarrow> (if s = [] then Null else Id s) | _ \<Rightarrow> Null)"
  by (auto simp: rendered_id_def split: ident.splits)

lemma getNextId_rendered_id:
  assumes its: "\<forall>i\<in>set its. from_rendered R i"
  shows "rendered_id R (getNextId st its ori h skip)"
proof -
  define allItems where "allItems = (if rtl st \<and> ori \<noteq> Vertical then reverseArray its else its)"
  have all: "\<forall>i\<in>set allItems. from_rendered R i"
    using its by (simp add: allItems_def reverseArray_def)
  have sub: "set ys \<subseteq> insert NULL_ITEM (set allItems) \<Longrightarrow> \<forall>i\<in>set ys. from_rendered R i" for ys
    using all from_rendered_NULL by auto
  have fst: "rendered_id R (id_of (findFirstEnabledItem allItems None))"
    using all by (rule rendered_id_find)
  show ?thesis
  proof (cases "activeId st")
    case Undefined
    with fst show ?thesis by (simp add: getNextId_def allItems_def)
  next
    case Null
    with fst show ?thesis by (simp add: getNextId_def allItems_def)
  next
    case (Id aid)
    show ?thesis
    proof (cases "findIndex (\<lambda>item. item_id item = Some aid) allItems")
      case None
      with fst Id show ?thesis by (simp add: getNextId_def allItems_def)
    next
      case (Some k)
      define activeItem where "activeItem = allItems ! k"
      define nextItems where "nextItems = drop (k + 1) allItems"
      define nextItemsInRow where "nextItemsInRow = getItemsInRow nextItems (rowId activeItem)"
      have s1: "set nextItems \<subseteq> insert NULL_ITEM (set allItems)"
        by (auto simp: nextItems_def dest: in_set_dropD)
      have s2: "set nextItemsInRow \<subseteq> insert NULL_ITEM (set allItems)"
        using s1 by (auto simp: nextItemsInRow_def getItemsInRow_def)
      have s3: "set (getItemsInRow allItems r) \<subseteq> insert NULL_ITEM (set allItems)" for r
        by (auto simp: getItemsInRow_def)
      have s4: "set (flipItems ys aid b) \<subseteq> insert NULL_ITEM (set allItems)"
        if "set ys \<subseteq> insert NULL_ITEM (set allItems)" for ys b
        using set_flipItems[of ys aid b] that by auto
      show ?thesis
      proof (cases skip)
        case (Some n)
        have "rendered_id R (id_of (case first_opt (slice_from (getEnabledItems nextItemsInRow (Some aid)) n) of
                                  Some i \<Rightarrow> Some i
                                | None \<Rightarrow> last_opt (getEnabledItems nextItemsInRow (Some aid))))"
          using sub[OF s2] by (rule rendered_id_skip)
        then show ?thesis
          using Id \<open>findIndex _ allItems = Some k\<close> Some
          unfolding getNextId_def allItems_def [symmetric] Let_def nextItemsInRow_def
              nextItems_def activeItem_def
          by simp
      next
        case None
        have f: "rendered_id R (id_of (findFirstEnabledItem ys (Some aid)))"
          if "set ys \<subseteq> insert NULL_ITEM (set allItems)" for ys
          using sub[OF that] by (rule rendered_id_find)
        have f1: "rendered_id R (id_of (findFirstEnabledItem (flipItems ys aid b) (Some aid)))"
          if "set ys \<subseteq> insert NULL_ITEM (set allItems)" for ys b
          using f[OF s4[OF that]] .
        have nullok: "rendered_id R Null" by (simp add: rendered_id_def)
        have s0: "set allItems \<subseteq> insert NULL_ITEM (set allItems)" by auto
        note fs = f[OF s1] f[OF s2] f1[OF s0] f1[OF s3] rendered_id_or_null[OF f[OF s1]]
          rendered_id_or_null[OF f[OF s2]] nullok
        from Id \<open>findIndex _ allItems = Some k\<close> None fs show ?thesis
          unfolding getNextId_def allItems_def [symmetric] Let_def nextItemsInRow_def
              nextItems_def activeItem_def
          by (simp add: id_of_None split: if_splits)
      qed
    qed
  qed
qed


lemma set_concat_pushToRow:
  "set (concat (pushToRow x rows)) = insert x (set (concat rows))"
  by (induction rows) auto

lemma set_concat_foldl_pushToRow:
  "set (concat (foldl (\<lambda>rows item. pushToRow item rows) acc xs)) = set (concat acc) \<union> set xs"
  by (induction xs arbitrary: acc) (auto simp add: set_concat_pushToRow simp del: set_concat)

lemma set_concat_groupItemsByRows: "set (concat (groupItemsByRows xs)) = set xs"
  by (simp add: groupItemsByRows_def set_concat_foldl_pushToRow del: set_concat)

lemma set_set_cell: "set (set_cell row i v) \<subseteq> insert v (set row)"
  by (auto simp: set_cell_def dest: set_update_subset_insert [THEN subsetD])

lemma nth_opt_in_set: "nth_opt row i = Some p \<Longrightarrow> p \<in> set row"
  by (auto simp: nth_opt_def split: if_splits)

lemma findFirstEnabledItem_in_set: "findFirstEnabledItem row ex = Some p \<Longrightarrow> p \<in> set row"
  by (auto simp: findFirstEnabledItem_def find_Some_iff)

lemma normalizeCell_from_rendered:
  assumes "\<forall>x\<in>set row. from_rendered R x"
  shows "\<forall>x\<in>set (normalizeCell aid shift row i). from_rendered R x"
proof -
  define prev where "prev =
     (if i = 0 \<and> shift then findFirstEnabledItem row None
      else if i = 0 then None else nth_opt row (i - 1))"
  define v where "v =
     (if prev \<noteq> None \<and> aid \<noteq> id_of prev \<and> shift then the prev
      else createEmptyItem (case prev of None \<Rightarrow> None | Some p \<Rightarrow> rowId p))"
  have "prev = Some p \<Longrightarrow> p \<in> set row" for p
    by (auto simp: prev_def split: if_splits
        dest: nth_opt_in_set findFirstEnabledItem_in_set)
  then have "from_rendered R v"
    using assms by (auto simp: v_def from_rendered_empty)
  then have "\<forall>x\<in>set (set_cell row i v). from_rendered R x"
    using assms set_set_cell[of row i v] by auto
  then show ?thesis
    using assms unfolding normalizeCell_def Let_def prev_def v_def by simp
qed

lemma foldl_normalizeCell_from_rendered:
  "\<forall>x\<in>set row. from_rendered R x \<Longrightarrow>
   \<forall>x\<in>set (foldl (normalizeCell aid shift) row is). from_rendered R x"
proof (induction "is" arbitrary: row)
  case Nil
  then show ?case by simp
next
  case (Cons i "is")
  from Cons.prems have "\<forall>x\<in>set (normalizeCell aid shift row i). from_rendered R x"
    by (rule normalizeCell_from_rendered)
  from Cons.IH[OF this] show ?case by simp
qed

lemma normalizeRows_from_rendered:
  assumes "\<forall>x\<in>set (concat rows). from_rendered R x"
  shows "\<forall>x\<in>set (flatten2DArray (normalizeRows rows aid shift)). from_rendered R x"
  using assms foldl_normalizeCell_from_rendered[of _ R aid shift]
  by (auto simp: flatten2DArray_def normalizeRows_def Let_def)

lemma verticalizeItems_origin:
  assumes "y \<in> set (verticalizeItems xs)"
  shows "\<exists>x\<in>set xs. item_id y = item_id x \<and> disabled y = disabled x"
proof -
  from assms obtain row i where
    row: "row \<in> set (groupItemsByRows xs)"
    and mem: "y \<in> set (case nth_opt row i of
                None \<Rightarrow> []
              | Some item \<Rightarrow>
                  [item\<lparr>rowId := (if truthy_str (rowId item) then Some (string_of_nat i)
                                   else None)\<rparr>])"
    by (auto simp: verticalizeItems_def Let_def)
  then obtain x where x: "nth_opt row i = Some x"
    and y: "y = x\<lparr>rowId := (if truthy_str (rowId x) then Some (string_of_nat i) else None)\<rparr>"
    by (cases "nth_opt row i") auto
  from x have "x \<in> set row" by (rule nth_opt_in_set)
  with row have "x \<in> set (concat (groupItemsByRows xs))" by auto
  then have "x \<in> set xs" by (simp only: set_concat_groupItemsByRows)
  with y show ?thesis by (intro bexI[of _ x]) simp_all
qed

lemma verticalizeItems_from_rendered:
  assumes "\<forall>x\<in>set xs. from_rendered R x"
  shows "\<forall>y\<in>set (verticalizeItems xs). from_rendered R y"
proof
  fix y assume "y \<in> set (verticalizeItems xs)"
  from verticalizeItems_origin[OF this] obtain x where
    "x \<in> set xs" "item_id y = item_id x" "disabled y = disabled x" by blast
  with assms show "from_rendered R y"
    by (auto simp: from_rendered_def is_disabled_def)
qed

lemma normalized_from_rendered:
  "\<forall>x\<in>set (flatten2DArray (normalizeRows (groupItemsByRows R) aid shift)). from_rendered R x"
  by (rule normalizeRows_from_rendered)
     (simp add: set_concat_groupItemsByRows from_rendered_self del: set_concat)

lemma down_rendered_id: "rendered_id (renderedItems st) (down st skip)"
  unfolding down_def Let_def
  by (intro getNextId_rendered_id verticalizeItems_from_rendered normalized_from_rendered)

lemma up_rendered_id: "rendered_id (renderedItems st) (up st skip)"
proof -
  have "\<forall>x\<in>set (reverseArray (flatten2DArray (normalizeRows (groupItemsByRows (renderedItems st))
            (activeId st) (focusShift st \<and> not_skip skip)))). from_rendered (renderedItems st) x"
    using normalized_from_rendered[of "renderedItems st"] by (simp add: reverseArray_def)
  then show ?thesis
    unfolding up_def Let_def
    by (intro getNextId_rendered_id verticalizeItems_from_rendered)
qed

lemma next_rendered_id: "rendered_id (renderedItems st) (next_id st skip)"
  unfolding next_id_def by (intro getNextId_rendered_id) (simp add: from_rendered_self)

lemma previous_rendered_id: "rendered_id (renderedItems st) (previous st skip)"
  unfolding previous_def Let_def
  by (intro getNextId_rendered_id) (simp add: from_rendered_self reverseArray_def)

lemma first_rendered_id: "rendered_id (renderedItems st) (first st)"
  unfolding first_def by (intro rendered_id_find) (simp add: from_rendered_self)

lemma last_rendered_id: "rendered_id (renderedItems st) (last_id st)"
  unfolding last_id_def by (intro rendered_id_find) (simp add: from_rendered_self reverseArray_def)

text \<open>
  C10. Every id returned by \<open>next\<close>, \<open>previous\<close>, \<open>up\<close>, \<open>down\<close>, \<open>first\<close> or
  \<open>last\<close> is \<open>undefined\<close>, \<open>null\<close> or the id of an enabled item of \<open>renderedItems\<close>.
  So when no rendered item has the id \<open>"__EMPTY_ITEM__"\<close>, the padding placeholder that
  row normalization inserts is never returned.
\<close>

theorem navigation_returns_rendered_ids:
  assumes "r \<in> {next_id st skip, previous st skip, up st skip, down st skip, first st,
                 last_id st}"
  shows "(r = Undefined \<or> r = Null
          \<or> (\<exists>i\<in>set (renderedItems st). \<not> is_disabled i \<and> id_of (Some i) = r))
       \<and> ((\<forall>i\<in>set (renderedItems st). item_id i \<noteq> Some ''__EMPTY_ITEM__'')
            \<longrightarrow> r \<noteq> Id ''__EMPTY_ITEM__'')"
proof -
  from assms have "rendered_id (renderedItems st) r"
    using next_rendered_id previous_rendered_id up_rendered_id down_rendered_id
      first_rendered_id last_rendered_id by auto
  then show ?thesis
    by (auto simp: rendered_id_def id_of_def split: option.splits)
qed

text \<open>
  In the grid \<open>[[A, B], [C]]\<close> with \<open>B\<close> active, the second row is padded with a
  placeholder below \<open>B\<close>; \<open>down()\<close> returns \<open>undefined\<close>, not the placeholder's id.
\<close>

theorem navigation_returns_rendered_ids_witness:
  "down (rendered [enabledItem ''A'' (Some ''r1''), enabledItem ''B'' (Some ''r1''),
                   enabledItem ''C'' (Some ''r2'')] (Id ''B'')) None \<noteq> Id ''__EMPTY_ITEM__''
   \<and> Some ''__EMPTY_ITEM__'' \<in> item_id ` set (flatten2DArray (normalizeRows (groupItemsByRows
         [enabledItem ''A'' (Some ''r1''), enabledItem ''B'' (Some ''r1''),
          enabledItem ''C'' (Some ''r2'')]) (Id ''B'') False))"
proof -
  let ?st = "rendered [enabledItem ''A'' (Some ''r1''), enabledItem ''B'' (Some ''r1''),
                   enabledItem ''C'' (Some ''r2'')] (Id ''B'')"
  have "\<forall>i\<in>set (renderedItems ?st). item_id i \<noteq> Some ''__EMPTY_ITEM__''"
    by (simp add: rendered_def initialState_def enabledItem_def)
  with navigation_returns_rendered_ids [of "down ?st None" ?st None]
  have "down ?st None \<noteq> Id ''__EMPTY_ITEM__''" by simp
  moreover have "Some ''__EMPTY_ITEM__'' \<in> item_id ` set (flatten2DArray (normalizeRows
         (groupItemsByRows [enabledItem ''A'' (Some ''r1''), enabledItem ''B'' (Some ''r1''),
          enabledItem ''C'' (Some ''r2'')]) (Id ''B'') False))"
    by (simp add: enabledItem_def groupItemsByRows_def head_rowId_def normalizeRows_def
        getMaxRowLength_def flatten2DArray_def normalizeCell_def nth_opt_def Let_def upt_rec
        set_cell_def createEmptyItem_def)
  ultimately show ?thesis by simp
qed

subsection \<open>Rows: grouping by \<open>rowId\<close>\<close>

lemma set_firsts_subset: "set (firsts xs) \<subseteq> set xs"
  by (induction xs) auto

lemma rowId_set_firsts: "rowId ` set (firsts xs) = rowId ` set xs"
proof (induction xs)
  case Nil
  then show ?case by simp
next
  case (Cons x xs)
  have "rowId ` set (filter (\<lambda>y. rowId y \<noteq> rowId x) (firsts xs))
        = rowId ` set (firsts xs) - {rowId x}"
    by auto
  with Cons show ?case by auto
qed

lemma firsts_snoc:
  "firsts (xs @ [x]) = (if rowId x \<in> rowId ` set xs then firsts xs else firsts xs @ [x])"
  by (induction xs) auto

lemma head_rowId_nonempty: "row \<noteq> [] \<Longrightarrow> head_rowId row = rowId (hd row)"
  by (cases row) (simp_all add: head_rowId_def)

lemma pushToRow_nonempty:
  "\<forall>row\<in>set rows. row \<noteq> [] \<Longrightarrow> \<forall>row\<in>set (pushToRow x rows). row \<noteq> []"
  by (induction rows) auto

lemma map_hd_pushToRow:
  "\<forall>row\<in>set rows. row \<noteq> [] \<Longrightarrow>
   map hd (pushToRow x rows) =
     (if rowId x \<in> rowId ` set (map hd rows) then map hd rows else map hd rows @ [x])"
  by (induction rows) (auto simp: head_rowId_nonempty)

lemma groupItemsByRows_snoc:
  "groupItemsByRows (xs @ [x]) = pushToRow x (groupItemsByRows xs)"
  by (simp add: groupItemsByRows_def)

lemma groupItemsByRows_heads:
  "(\<forall>row\<in>set (groupItemsByRows xs). row \<noteq> []) \<and> map hd (groupItemsByRows xs) = firsts xs"
proof (induction xs rule: rev_induct)
  case Nil
  then show ?case by (simp add: groupItemsByRows_def)
next
  case (snoc x xs)
  then have ne: "\<forall>row\<in>set (groupItemsByRows xs). row \<noteq> []"
    and hd: "map hd (groupItemsByRows xs) = firsts xs" by simp_all
  have "rowId ` set (map hd (groupItemsByRows xs)) = rowId ` set xs"
    by (simp only: hd rowId_set_firsts)
  with map_hd_pushToRow[OF ne, of x] hd
  have "map hd (groupItemsByRows (xs @ [x])) = firsts (xs @ [x])"
    by (simp add: groupItemsByRows_snoc firsts_snoc)
  with pushToRow_nonempty[OF ne, of x] show ?case
    by (simp add: groupItemsByRows_snoc)
qed

lemma pushToRow_const:
  "\<forall>row\<in>set rows. \<forall>y\<in>set row. rowId y = head_rowId row \<Longrightarrow>
   \<forall>row\<in>set (pushToRow x rows). \<forall>y\<in>set row. rowId y = head_rowId row"
proof (induction rows)
  case Nil
  then show ?case by (simp add: head_rowId_def)
next
  case (Cons row rows)
  show ?case
  proof (cases "head_rowId row = rowId x")
    case True
    have "head_rowId (row @ [x]) = rowId x"
      using True by (cases row) (simp_all add: head_rowId_def)
    with True Cons.prems show ?thesis by auto
  next
    case False
    with Cons show ?thesis by auto
  qed
qed

lemma groupItemsByRows_const:
  "\<forall>row\<in>set (groupItemsByRows xs). \<forall>y\<in>set row. rowId y = rowId (hd row)"
proof -
  have "\<forall>row\<in>set (groupItemsByRows xs). \<forall>y\<in>set row. rowId y = head_rowId row"
  proof (induction xs rule: rev_induct)
    case Nil
    then show ?case by (simp add: groupItemsByRows_def)
  next
    case (snoc x xs)
    from pushToRow_const[OF snoc, of x] show ?case
      by (simp only: groupItemsByRows_snoc)
  qed
  then have c: "\<forall>row\<in>set (groupItemsByRows xs). \<forall>y\<in>set row. rowId y = head_rowId row" .
  show ?thesis
  proof (intro ballI)
    fix row y assume row: "row \<in> set (groupItemsByRows xs)" and y: "y \<in> set row"
    from row groupItemsByRows_heads[of xs] have "row \<noteq> []" by blast
    then have "head_rowId row = rowId (hd row)" by (rule head_rowId_nonempty)
    with c row y show "rowId y = rowId (hd row)" by simp
  qed
qed

lemma distinct_rowId_firsts: "distinct (map rowId (firsts xs))"
proof (induction xs)
  case Nil
  then show ?case by simp
next
  case (Cons x xs)
  then have "distinct (map rowId (filter (\<lambda>y. rowId y \<noteq> rowId x) (firsts xs)))"
    by (simp add: distinct_map_filter)
  then show ?case by auto
qed

lemma distinct_concat_pushToRow:
  "f x \<notin> f ` set (concat rows) \<Longrightarrow> distinct (map f (concat rows)) \<Longrightarrow>
   distinct (map f (concat (pushToRow x rows)))"
proof (induction rows)
  case Nil
  then show ?case by simp
next
  case (Cons row rows)
  show ?case
  proof (cases "head_rowId row = rowId x")
    case True
    with Cons.prems show ?thesis by auto
  next
    case False
    from Cons.prems have fx: "f x \<notin> f ` set (concat rows)"
      and d: "distinct (map f (concat rows))" by auto
    have "set (concat (pushToRow x rows)) = insert x (set (concat rows))"
      by (rule set_concat_pushToRow)
    then have "f ` set (concat (pushToRow x rows)) = insert (f x) (f ` set (concat rows))"
      by (simp only: image_insert)
    moreover from Cons.prems have "f ` set row \<inter> f ` set (concat rows) = {}"
      "f x \<notin> f ` set row" "distinct (map f row)"
      by auto
    ultimately have "f ` set row \<inter> f ` set (concat (pushToRow x rows)) = {}"
      by (simp only:) auto
    with Cons.IH[OF fx d] \<open>distinct (map f row)\<close> False show ?thesis
      by (simp del: set_concat)
  qed
qed

lemma distinct_concat_groupItemsByRows:
  "distinct (map f xs) \<Longrightarrow> distinct (map f (concat (groupItemsByRows xs)))"
proof (induction xs rule: rev_induct)
  case Nil
  then show ?case by (simp add: groupItemsByRows_def)
next
  case (snoc x xs)
  then have d: "distinct (map f (concat (groupItemsByRows xs)))" by simp
  have "set (concat (groupItemsByRows xs)) = set xs"
    by (rule set_concat_groupItemsByRows)
  with snoc.prems have "f x \<notin> f ` set (concat (groupItemsByRows xs))"
    by (simp del: set_concat) 
  from distinct_concat_pushToRow[OF this d] show ?case
    by (simp only: groupItemsByRows_snoc)
qed

lemma firsts_same_row_prefix:
  "\<forall>y\<in>set t. rowId y = k \<Longrightarrow>
   filter (\<lambda>y. rowId y \<noteq> k) (firsts (t @ rest)) = filter (\<lambda>y. rowId y \<noteq> k) (firsts rest)"
  by (induction t) auto

lemma firsts_concat:
  "\<forall>row\<in>set rows. row \<noteq> [] \<and> (\<forall>y\<in>set row. rowId y = rowId (hd row)) \<Longrightarrow>
   firsts (concat rows) = firsts (map hd rows)"
proof (induction rows)
  case Nil
  then show ?case by simp
next
  case (Cons row rows)
  then obtain h t where row: "row = h # t" by (cases row) auto
  with Cons.prems have t: "\<forall>y\<in>set t. rowId y = rowId h" by simp
  from Cons have IH: "firsts (concat rows) = firsts (map hd rows)" by simp
  show ?case
    using firsts_same_row_prefix[OF t, of "concat rows"] IH by (simp add: row)
qed

lemma filter_truthy_firsts:
  "distinct (map rowId (filter (\<lambda>x. truthy_str (rowId x)) hs)) \<Longrightarrow>
   filter (\<lambda>x. truthy_str (rowId x)) (firsts hs) = filter (\<lambda>x. truthy_str (rowId x)) hs"
proof (induction hs)
  case Nil
  then show ?case by simp
next
  case (Cons h hs)
  let ?T = "\<lambda>x. truthy_str (rowId x)"
  from Cons have IH: "filter ?T (firsts hs) = filter ?T hs"
    by (auto split: if_splits)
  have "filter ?T (filter (\<lambda>y. rowId y \<noteq> rowId h) (firsts hs))
        = filter (\<lambda>y. rowId y \<noteq> rowId h) (filter ?T (firsts hs))"
    by (simp add: conj_commute)
  also have "\<dots> = filter (\<lambda>y. rowId y \<noteq> rowId h) (filter ?T hs)"
    by (simp only: IH)
  also have "\<dots> = filter ?T hs"
  proof (cases "?T h")
    case True
    with Cons.prems have nin: "rowId h \<notin> rowId ` set (filter ?T hs)" by simp
    have "rowId y \<noteq> rowId h" if "y \<in> set (filter ?T hs)" for y
      using that nin by (metis imageI)
    then show ?thesis by (intro filter_True) blast
  next
    case False
    then show ?thesis by (intro filter_True) auto
  qed
  finally show ?case by simp
qed

subsection \<open>Rows: padding by \<^verbatim>\<open>normalizeRows\<close>\<close>

lemma findFirstEnabledItem_None_Some:
  "findFirstEnabledItem row None = Some p \<Longrightarrow> p \<in> set row \<and> \<not> is_disabled p"
  by (auto simp: findFirstEnabledItem_def truthy_str_def find_Some_iff)

lemma findFirstEnabledItem_None_None:
  "findFirstEnabledItem row None = None \<Longrightarrow> \<forall>x\<in>set row. is_disabled x"
  by (auto simp: findFirstEnabledItem_def truthy_str_def find_None_iff)

lemma rowId_createEmptyItem: "rowId (createEmptyItem r) = r"
  by (simp add: createEmptyItem_def)

lemma first_cell_cases:
  assumes "row \<noteq> []"
  shows "first_cell aid shift row \<in> set row \<or> (\<exists>r. first_cell aid shift row = createEmptyItem r)"
proof (cases "findFirstEnabledItem row None")
  case None
  with assms show ?thesis by (auto simp: first_cell_def)
next
  case (Some p)
  from findFirstEnabledItem_None_Some[OF this] have "p \<in> set row" by simp
  with Some assms show ?thesis by (auto simp: first_cell_def)
qed

lemma rowId_first_cell:
  assumes ne: "row \<noteq> []" and const: "\<forall>x\<in>set row. rowId x = rid"
    and en: "\<not> shift \<or> (\<exists>x\<in>set row. \<not> is_disabled x)"
  shows "rowId (first_cell aid shift row) = rid"
proof (cases "shift \<and> is_disabled (hd row)")
  case False
  with ne const show ?thesis by (auto simp: first_cell_def)
next
  case True
  with en obtain p where p: "findFirstEnabledItem row None = Some p"
    using findFirstEnabledItem_None_None[of row] by (cases "findFirstEnabledItem row None") auto
  from findFirstEnabledItem_None_Some[OF p] const have "rowId p = rid" by simp
  with True p show ?thesis by (simp add: first_cell_def rowId_createEmptyItem)
qed

lemma normalizeCell_0:
  assumes "row \<noteq> []"
  shows "normalizeCell aid shift row 0 =
           (if shift \<and> is_disabled (hd row) then row[0 := first_cell aid shift row] else row)"
proof -
  from assms obtain h t where row: "row = h # t" by (cases row) auto
  show ?thesis
    by (cases "findFirstEnabledItem (h # t) None")
       (simp_all add: row normalizeCell_def nth_opt_def Let_def set_cell_def first_cell_def
         id_of_def)
qed

lemma normalizeCell_pos:
  assumes "0 < m" and "m \<le> length nr"
  shows "normalizeCell aid shift nr m =
     (if m < length nr \<and> \<not> (shift \<and> is_disabled (nr ! m)) then nr
      else set_cell nr m
             (if aid \<noteq> id_of (Some (nr ! (m - 1))) \<and> shift then nr ! (m - 1)
              else createEmptyItem (rowId (nr ! (m - 1)))))"
proof -
  from assms have prev: "nth_opt nr (m - 1) = Some (nr ! (m - 1))"
    by (simp add: nth_opt_def)
  from assms(1) have m0: "(m = 0) = False" by simp
  show ?thesis
  proof (cases "m < length nr")
    case True
    then have item: "nth_opt nr m = Some (nr ! m)" by (simp add: nth_opt_def)
    show ?thesis
      unfolding normalizeCell_def Let_def item prev m0 using True by simp
  next
    case False
    then have item: "nth_opt nr m = None" by (simp add: nth_opt_def)
    show ?thesis
      unfolding normalizeCell_def Let_def item prev m0 using False by simp
  qed
qed

lemma norm_inv_0: "norm_inv aid shift row 0 row"
  by (simp add: norm_inv_def)

lemma norm_inv_step:
  assumes ne: "row \<noteq> []" and const: "\<forall>x\<in>set row. rowId x = rid"
    and inv: "norm_inv aid shift row m nr"
  shows "norm_inv aid shift row (Suc m) (normalizeCell aid shift nr m)"
proof (cases "m = 0")
  case True
  from inv True have len: "length nr = length row" and eq: "\<forall>j<length row. nr ! j = row ! j"
    by (simp_all add: norm_inv_def)
  then have nr: "nr = row" by (intro nth_equalityI) simp_all
  let ?c = "first_cell aid shift row"
  let ?nr' = "normalizeCell aid shift row 0"
  from ne have len1: "1 \<le> length row" by (cases row) simp_all
  have nr': "?nr' = (if shift \<and> is_disabled (hd row) then row[0 := ?c] else row)"
    using ne by (rule normalizeCell_0)
  have c_else: "\<not> (shift \<and> is_disabled (hd row)) \<Longrightarrow> ?c = hd row"
    by (auto simp: first_cell_def)
  have hd0: "hd ?nr' = ?c"
  proof (cases "shift \<and> is_disabled (hd row)")
    case True
    have "hd (row[0 := ?c]) = ?c" using ne by (cases row) simp_all
    with True nr' show ?thesis by simp
  next
    case False
    with c_else nr' show ?thesis by simp
  qed
  have l: "length ?nr' = length row" using nr' by (simp split: if_splits)
  have n0: "?nr' ! 0 = ?c"
    using hd0 l ne by (cases ?nr') auto
  have rest: "\<forall>j. Suc 0 \<le> j \<longrightarrow> j < length row \<longrightarrow> ?nr' ! j = row ! j"
    using nr' by (simp split: if_splits)
  have elems: "\<forall>x\<in>set ?nr'. x \<in> set row \<or> (\<exists>r. x = createEmptyItem r)"
  proof
    fix x assume "x \<in> set ?nr'"
    then have "x \<in> set row \<or> x \<in> set (row[0 := ?c])"
      using nr' by (simp split: if_splits)
    then have "x \<in> insert ?c (set row)"
      using set_update_subset_insert[of row 0 ?c] by blast
    with first_cell_cases[OF ne, of aid shift]
    show "x \<in> set row \<or> (\<exists>r. x = createEmptyItem r)" by auto
  qed
  from l len1 hd0 n0 rest elems show ?thesis
    unfolding norm_inv_def True nr by (simp add: max_def)
next
  case False
  then have mpos: "0 < m" by simp
  let ?c = "first_cell aid shift row"
  from inv have A: "length nr = max (length row) m
      \<and> (0 < m \<longrightarrow> hd nr = ?c)
      \<and> (\<forall>j<m. rowId (nr ! j) = rowId ?c)
      \<and> (\<forall>j. m \<le> j \<longrightarrow> j < length row \<longrightarrow> nr ! j = row ! j)
      \<and> (\<forall>x\<in>set nr. x \<in> set row \<or> (\<exists>r. x = createEmptyItem r))"
    unfolding norm_inv_def .
  note len = A[THEN conjunct1]
  note hd = A[THEN conjunct2, THEN conjunct1, rule_format, OF mpos]
  note pre = A[THEN conjunct2, THEN conjunct2, THEN conjunct1]
  note post = A[THEN conjunct2, THEN conjunct2, THEN conjunct2, THEN conjunct1]
  note elems = A[THEN conjunct2, THEN conjunct2, THEN conjunct2, THEN conjunct2]
  from len have mle: "m \<le> length nr" by simp
  from ne len have nne: "nr \<noteq> []" by auto
  let ?prev = "nr ! (m - 1)"
  let ?v = "if aid \<noteq> id_of (Some ?prev) \<and> shift then ?prev
            else createEmptyItem (rowId ?prev)"
  from mpos mle have prev_in: "?prev \<in> set nr" by simp
  from pre mpos have prev_row: "rowId ?prev = rowId ?c" by simp
  then have v_row: "rowId ?v = rowId ?c" by (simp add: rowId_createEmptyItem)
  have v_elem: "?v \<in> set row \<or> (\<exists>r. ?v = createEmptyItem r)"
    using elems prev_in by auto
  have nc: "normalizeCell aid shift nr m =
     (if m < length nr \<and> \<not> (shift \<and> is_disabled (nr ! m)) then nr else set_cell nr m ?v)"
    using mpos mle by (rule normalizeCell_pos)
  show ?thesis
  proof (cases "m < length nr \<and> \<not> (shift \<and> is_disabled (nr ! m))")
    case True
    then have keep: "normalizeCell aid shift nr m = nr"
      unfolding nc by (rule if_P)
    from True len have mlt: "m < length row" by (simp add: max_def split: if_splits)
    with post have nm: "nr ! m = row ! m" by simp
    from mlt have in_row: "row ! m \<in> set row" by simp
    with const have "rowId (row ! m) = rid" by simp
    moreover have "rowId ?c = rid"
    proof (rule rowId_first_cell[OF ne const])
      from True nm in_row show "\<not> shift \<or> (\<exists>x\<in>set row. \<not> is_disabled x)" by auto
    qed
    ultimately have "rowId (nr ! m) = rowId ?c" using nm by simp
    with pre have pre': "\<forall>j<Suc m. rowId (nr ! j) = rowId ?c"
      by (auto simp: less_Suc_eq)
    from len mlt have "length nr = max (length row) (Suc m)" by (simp add: max_def)
    with hd pre' post elems show ?thesis
      unfolding norm_inv_def keep by simp
  next
    case False
    then have nc': "normalizeCell aid shift nr m = set_cell nr m ?v"
      unfolding nc by (rule if_not_P)
    show ?thesis
    proof (cases "m < length nr")
      case True
      then have sc: "set_cell nr m ?v = nr[m := ?v]" by (simp add: set_cell_def)
      from True len have mlt: "m < length row" by (simp add: max_def split: if_splits)
      have l: "length (nr[m := ?v]) = max (length row) (Suc m)"
        using len mlt by (simp add: max_def)
      have h: "hd (nr[m := ?v]) = ?c"
        using hd mpos nne by (cases nr; cases m) simp_all
      have p: "\<forall>j<Suc m. rowId (nr[m := ?v] ! j) = rowId ?c"
        using pre v_row True by (auto simp: less_Suc_eq nth_list_update)
      have q: "\<forall>j. Suc m \<le> j \<longrightarrow> j < length row \<longrightarrow> nr[m := ?v] ! j = row ! j"
        using post by (auto simp: nth_list_update)
      have e: "\<forall>x\<in>set (nr[m := ?v]). x \<in> set row \<or> (\<exists>r. x = createEmptyItem r)"
      proof
        fix x assume "x \<in> set (nr[m := ?v])"
        then have "x \<in> insert ?v (set nr)"
          using set_update_subset_insert[of nr m ?v] by auto
        with elems v_elem show "x \<in> set row \<or> (\<exists>r. x = createEmptyItem r)" by auto
      qed
      from l h p q e show ?thesis
        unfolding norm_inv_def nc' sc by simp
    next
      case nlt: False
      with mle have meq: "length nr = m" by simp
      then have sc: "set_cell nr m ?v = nr @ [?v]" by (simp add: set_cell_def)
      from meq len have rl: "length row \<le> m" by (simp add: max_def split: if_splits)
      have l: "length (nr @ [?v]) = max (length row) (Suc m)"
        using meq rl by (simp add: max_def)
      have h: "hd (nr @ [?v]) = ?c" using hd nne by simp
      have p: "\<forall>j<Suc m. rowId ((nr @ [?v]) ! j) = rowId ?c"
        using pre v_row meq by (auto simp: less_Suc_eq nth_append)
      have q: "\<forall>j. Suc m \<le> j \<longrightarrow> j < length row \<longrightarrow> (nr @ [?v]) ! j = row ! j"
        using rl by auto
      have e: "\<forall>x\<in>set (nr @ [?v]). x \<in> set row \<or> (\<exists>r. x = createEmptyItem r)"
        using elems v_elem by auto
      from l h p q e show ?thesis
        unfolding norm_inv_def nc' sc by simp
    qed
  qed
qed

lemma norm_inv_foldl:
  assumes ne: "row \<noteq> []" and const: "\<forall>x\<in>set row. rowId x = rid"
  shows "norm_inv aid shift row m (foldl (normalizeCell aid shift) row [0..<m])"
proof (induction m)
  case 0
  show ?case by (simp add: norm_inv_0)
next
  case (Suc m)
  from norm_inv_step[OF ne const Suc] show ?case by simp
qed

subsection \<open>Columns: \<^verbatim>\<open>verticalizeItems\<close>\<close>

lemma foldl_max_ge:
  "a \<le> foldl (\<lambda>maxLength row. if length row > maxLength then length row else maxLength) a rows
   \<and> (\<forall>row\<in>set rows. length row \<le>
        foldl (\<lambda>maxLength row. if length row > maxLength then length row else maxLength) a rows)"
proof (induction rows arbitrary: a)
  case Nil
  then show ?case by simp
next
  case (Cons r rows)
  let ?g = "\<lambda>maxLength row. if length row > maxLength then length (row :: 'a list) else maxLength"
  let ?a' = "if length r > a then length r else a"
  from Cons[of ?a'] have 1: "?a' \<le> foldl ?g ?a' rows"
    and 2: "\<forall>row\<in>set rows. length row \<le> foldl ?g ?a' rows" by blast+
  have "a \<le> ?a'" "length r \<le> ?a'" by simp_all
  with 1 have "a \<le> foldl ?g ?a' rows" "length r \<le> foldl ?g ?a' rows"
    by (meson le_trans)+
  with 2 show ?case by simp
qed

lemma getMaxRowLength_ge: "row \<in> set rows \<Longrightarrow> length row \<le> getMaxRowLength rows"
  using foldl_max_ge[of 0 rows] by (simp add: getMaxRowLength_def)

lemma string_of_nat_nonempty: "string_of_nat n \<noteq> []"
  by (subst string_of_nat.simps) simp

lemma digit_char_0: "d < 10 \<Longrightarrow> digit_char d = digit_char 0 \<Longrightarrow> d = 0"
proof -
  assume d: "d < 10" and eq: "digit_char d = digit_char 0"
  then have "of_char (char_of (48 + d) :: char) = (of_char (char_of (48::nat) :: char) :: nat)"
    by (simp add: digit_char_def)
  with d show "d = 0" by (simp add: of_char_of)
qed

lemma string_of_nat_eq_0: "string_of_nat i = string_of_nat 0 \<Longrightarrow> i = 0"
proof (cases "i < 10")
  case True
  assume "string_of_nat i = string_of_nat 0"
  with True have "digit_char i = digit_char 0"
    by (simp add: string_of_nat.simps[of i] string_of_nat.simps[of 0])
  with True show ?thesis by (rule digit_char_0)
next
  case False
  assume eq: "string_of_nat i = string_of_nat 0"
  from False have "string_of_nat i = string_of_nat (i div 10) @ [digit_char (i mod 10)]"
    by (subst string_of_nat.simps) simp
  then have "length (string_of_nat i) \<ge> 2"
    using string_of_nat_nonempty[of "i div 10"]
    by (cases "string_of_nat (i div 10)") simp_all
  moreover have "length (string_of_nat 0) = 1"
    by (simp add: string_of_nat.simps[of 0])
  ultimately show ?thesis using eq by simp
qed

lemma column0:
  "\<forall>row\<in>set rows. row \<noteq> [] \<Longrightarrow>
   concat (map (\<lambda>row. case nth_opt row 0 of None \<Rightarrow> [] | Some item \<Rightarrow> [relabel 0 item]) rows)
     = map (\<lambda>row. relabel 0 (hd row)) rows"
proof (induction rows)
  case Nil
  then show ?case by simp
next
  case (Cons r rows)
  then obtain h t where "r = h # t" by (cases r) auto
  with Cons show ?case by (simp add: nth_opt_def)
qed

lemma column_rowIds:
  assumes "x \<in> set (concat (map (\<lambda>row. case nth_opt row i of
                                      None \<Rightarrow> [] | Some item \<Rightarrow> [relabel i item]) rows))"
  shows "rowId x = None \<or> rowId x = Some (string_of_nat i)"
proof -
  from assms obtain row where
    "x \<in> set (case nth_opt row i of None \<Rightarrow> [] | Some item \<Rightarrow> [relabel i item])"
    by auto
  then obtain item where "x = relabel i item"
    by (cases "nth_opt row i") auto
  then show ?thesis by (simp add: relabel_def)
qed

lemma verticalizeItems_columns:
  "verticalizeItems its =
     concat (map (\<lambda>i. concat (map (\<lambda>row. case nth_opt row i of
                                             None \<Rightarrow> [] | Some item \<Rightarrow> [relabel i item])
                                 (groupItemsByRows its)))
                 [0..<getMaxRowLength (groupItemsByRows its)])"
  unfolding verticalizeItems_def Let_def relabel_def ..

lemma verticalizeItems_split:
  assumes "its \<noteq> []"
  shows "\<exists>rest. verticalizeItems its = map (relabel 0) (firsts its) @ rest
               \<and> (\<forall>x\<in>set rest. rowId x \<noteq> Some (string_of_nat 0))"
proof -
  let ?G = "groupItemsByRows its"
  let ?M = "getMaxRowLength ?G"
  let ?col = "\<lambda>i. concat (map (\<lambda>row. case nth_opt row i of
                                       None \<Rightarrow> [] | Some item \<Rightarrow> [relabel i item]) ?G)"
  from groupItemsByRows_heads[of its] have ne: "\<forall>row\<in>set ?G. row \<noteq> []"
    and hds: "map hd ?G = firsts its" by simp_all
  from assms hds have "?G \<noteq> []" by (cases its) auto
  then obtain r where r: "r \<in> set ?G" by (cases ?G) auto
  with ne have "1 \<le> length r" by (cases r) auto
  with getMaxRowLength_ge[OF r] have M: "0 < ?M" by simp
  then have upt: "[0..<?M] = 0 # [1..<?M]" by (simp add: upt_conv_Cons)
  have "map (\<lambda>row. relabel 0 (hd row)) ?G = map (relabel 0) (map hd ?G)"
    by simp
  then have c0: "?col 0 = map (relabel 0) (firsts its)"
    using column0[OF ne] by (simp only: hds)
  let ?rest = "concat (map ?col [1..<?M])"
  have V: "verticalizeItems its = ?col 0 @ ?rest"
    by (subst verticalizeItems_columns, subst upt) simp
  have "\<forall>x\<in>set ?rest. rowId x \<noteq> Some (string_of_nat 0)"
  proof
    fix x assume "x \<in> set ?rest"
    then obtain ys where ys: "ys \<in> set (map ?col [1..<?M])" and xy: "x \<in> set ys"
      unfolding set_concat by blast
    from ys obtain i where "i \<in> set [1..<?M]" and yi: "ys = ?col i"
      unfolding set_map by blast
    then have i: "1 \<le> i" by simp
    from xy yi have x: "x \<in> set (?col i)" by simp
    from column_rowIds[OF x] i string_of_nat_eq_0[of i]
    show "rowId x \<noteq> Some (string_of_nat 0)" by auto
  qed
  with V c0 show ?thesis by auto
qed

lemma findIndex_Some_props:
  "findIndex P xs = Some p \<Longrightarrow> p < length xs \<and> P (xs ! p)"
  by (induction xs arbitrary: p) (auto split: if_splits option.splits)

lemma findIndex_append_left:
  "findIndex P xs = Some p \<Longrightarrow> findIndex P (xs @ ys) = Some p"
  by (induction xs arbitrary: p) (auto split: if_splits option.splits)

lemma filter_after_first:
  "findIndex A xs = Some p \<Longrightarrow> P (xs ! p) \<Longrightarrow>
   \<exists>q. findIndex A (filter P xs) = Some q
      \<and> filter P (drop (Suc p) xs) = drop (Suc q) (filter P xs)"
proof (induction xs arbitrary: p)
  case Nil
  then show ?case by simp
next
  case (Cons x xs)
  show ?case
  proof (cases "A x")
    case True
    with Cons.prems show ?thesis by simp
  next
    case False
    with Cons.prems obtain p' where p': "findIndex A xs = Some p'" and p: "p = Suc p'"
      by (auto split: option.splits)
    with Cons.prems have "P (xs ! p')" by simp
    from Cons.IH[OF p' this] obtain q where
      q: "findIndex A (filter P xs) = Some q"
      "filter P (drop (Suc p') xs) = drop (Suc q) (filter P xs)" by blast
    with False p show ?thesis by simp
  qed
qed

lemma first_opt_filter: "first_opt (filter P xs) = List.find P xs"
  by (induction xs) (auto simp: first_opt_def)

lemma skip0_pick:
  "(case first_opt (slice_from ys 0) of Some i \<Rightarrow> Some i | None \<Rightarrow> last_opt ys) = first_opt ys"
  by (cases ys) (simp_all add: slice_from_def first_opt_def last_opt_def)

lemma first_opt_getEnabledItems:
  "first_opt (getEnabledItems xs (Some a)) =
     List.find (\<lambda>i. \<not> is_disabled i \<and> (a \<noteq> [] \<longrightarrow> item_id i \<noteq> Some a)) xs"
proof -
  have "getEnabledItems xs (Some a) =
          filter (\<lambda>i. \<not> is_disabled i \<and> (a \<noteq> [] \<longrightarrow> item_id i \<noteq> Some a)) xs"
    unfolding getEnabledItems_def truthy_str_def by (intro filter_cong) auto
  then show ?thesis by (simp only: first_opt_filter)
qed

lemma getNextId_skip0:
  assumes act: "activeId st = Id a"
    and fi: "findIndex (\<lambda>i. item_id i = Some a) V = Some p"
  shows "getNextId st V Vertical h (Some 0) =
           id_of (List.find (\<lambda>i. \<not> is_disabled i \<and> (a \<noteq> [] \<longrightarrow> item_id i \<noteq> Some a))
                    (filter (\<lambda>i. rowId i = rowId (V ! p)) (drop (Suc p) V)))"
  using act fi
  by (simp add: getNextId_def Let_def getItemsInRow_def skip0_pick first_opt_getEnabledItems)

subsection \<open>\<open>down(0)\<close> from the first item of a row\<close>

lemma findIndex_exists: "x \<in> set xs \<Longrightarrow> P x \<Longrightarrow> \<exists>p. findIndex P xs = Some p"
  by (induction xs) (auto split: option.splits)

lemma distinct_map_filter_sub:
  "(\<forall>x\<in>set xs. T (f x) \<longrightarrow> f x = g x) \<Longrightarrow> distinct (map g xs) \<Longrightarrow>
   distinct (map f (filter (\<lambda>x. T (f x)) xs))"
proof (induction xs)
  case Nil
  then show ?case by simp
next
  case (Cons x xs)
  then have IH: "distinct (map f (filter (\<lambda>x. T (f x)) xs))" by simp
  show ?case
  proof (cases "T (f x)")
    case False
    with IH show ?thesis by simp
  next
    case True
    with Cons.prems have fx: "f x = g x" by simp
    have "f x \<notin> f ` set (filter (\<lambda>x. T (f x)) xs)"
    proof
      assume "f x \<in> f ` set (filter (\<lambda>x. T (f x)) xs)"
      then obtain y where y: "y \<in> set xs" "T (f y)" "f y = f x" by auto
      with Cons.prems(1) have "f y = g y" by simp
      with y fx have "g x = g y" by simp
      with y(1) Cons.prems(2) show False by auto
    qed
    with IH True show ?thesis by simp
  qed
qed

lemma find_filter_redundant:
  "(\<forall>x\<in>set xs. \<not> T x \<longrightarrow> \<not> E x) \<Longrightarrow> List.find E (filter T xs) = List.find E xs"
  by (induction xs) auto

lemma id_of_find_map:
  "(\<forall>x\<in>set xs. E (f x) = E' x \<and> item_id (f x) = item_id x) \<Longrightarrow>
   id_of (List.find E (map f xs)) = id_of (List.find E' xs)"
  by (induction xs) (auto simp: id_of_def)

lemma is_disabled_createEmptyItem: "is_disabled (createEmptyItem k)"
  by (simp add: createEmptyItem_def is_disabled_def)

lemma item_id_createEmptyItem: "item_id (createEmptyItem k) = Some ''__EMPTY_ITEM__''"
  by (simp add: createEmptyItem_def)

lemma rowId_first_cell_cases:
  assumes ne: "row \<noteq> []" and const: "\<forall>x\<in>set row. rowId x = rid"
  shows "rowId (first_cell aid shift row) = rid \<or> rowId (first_cell aid shift row) = None"
proof (cases "\<not> shift \<or> (\<exists>x\<in>set row. \<not> is_disabled x)")
  case True
  from rowId_first_cell[OF ne const True] show ?thesis by simp
next
  case False
  then have "findFirstEnabledItem row None = None"
    using findFirstEnabledItem_None_Some[of row] by (cases "findFirstEnabledItem row None") auto
  moreover from False ne have "shift \<and> is_disabled (hd row)" by (cases row) auto
  ultimately show ?thesis by (simp add: first_cell_def rowId_createEmptyItem)
qed

lemma first_cell_find:
  assumes ne: "row \<noteq> []" and ids: "\<forall>x\<in>set row. aid \<noteq> id_of (Some x)"
  shows "List.find (\<lambda>i. \<not> is_disabled i) [first_cell aid True row]
           = List.find (\<lambda>i. \<not> is_disabled i) row"
proof (cases "is_disabled (hd row)")
  case False
  with ne show ?thesis by (cases row) (simp_all add: first_cell_def)
next
  case True
  have ff: "findFirstEnabledItem row None = List.find (\<lambda>i. \<not> is_disabled i) row"
    by (simp add: findFirstEnabledItem_def truthy_str_def)
  show ?thesis
  proof (cases "findFirstEnabledItem row None")
    case None
    with True ff show ?thesis
      by (simp add: first_cell_def is_disabled_createEmptyItem)
  next
    case (Some p)
    from findFirstEnabledItem_None_Some[OF Some] ids
    have "aid \<noteq> id_of (Some p)" "\<not> is_disabled p" by simp_all
    with True Some ff show ?thesis by (simp add: first_cell_def)
  qed
qed

lemma find_first_cells_concat:
  "\<forall>row\<in>set rows. row \<noteq> [] \<and> (\<forall>x\<in>set row. aid \<noteq> id_of (Some x)) \<Longrightarrow>
   List.find (\<lambda>i. \<not> is_disabled i) (map (first_cell aid True) rows)
     = List.find (\<lambda>i. \<not> is_disabled i) (concat rows)"
proof (induction rows)
  case Nil
  then show ?case by simp
next
  case (Cons r rows)
  then have IH: "List.find (\<lambda>i. \<not> is_disabled i) (map (first_cell aid True) rows)
     = List.find (\<lambda>i. \<not> is_disabled i) (concat rows)" by simp
  from Cons.prems have one: "List.find (\<lambda>i. \<not> is_disabled i) [first_cell aid True r]
           = List.find (\<lambda>i. \<not> is_disabled i) r"
    by (intro first_cell_find) simp_all
  let ?en = "\<lambda>i. \<not> is_disabled i"
  have "List.find ?en (map (first_cell aid True) (r # rows))
          = List.find ?en ([first_cell aid True r] @ map (first_cell aid True) rows)"
    by simp
  also have "\<dots> = (case List.find ?en [first_cell aid True r] of
                       None \<Rightarrow> List.find ?en (map (first_cell aid True) rows)
                     | Some x \<Rightarrow> Some x)"
    by (rule find_append)
  also have "\<dots> = (case List.find ?en r of
                       None \<Rightarrow> List.find ?en (concat rows) | Some x \<Rightarrow> Some x)"
    by (simp only: one IH)
  also have "\<dots> = List.find ?en (r @ concat rows)"
    by (rule find_append[symmetric])
  finally show ?case by simp
qed

lemma normalized_row:
  assumes ne: "row \<noteq> []" and const: "\<forall>x\<in>set row. rowId x = rid" and len: "length row \<le> M"
  shows "foldl (normalizeCell aid shift) row [0..<M] \<noteq> []
       \<and> hd (foldl (normalizeCell aid shift) row [0..<M]) = first_cell aid shift row
       \<and> (\<forall>x\<in>set (foldl (normalizeCell aid shift) row [0..<M]).
             rowId x = rowId (hd (foldl (normalizeCell aid shift) row [0..<M])))"
proof -
  define nr where "nr = foldl (normalizeCell aid shift) row [0..<M]"
  from norm_inv_foldl[OF ne const, of aid shift M]
  have A: "length nr = max (length row) M
      \<and> (0 < M \<longrightarrow> hd nr = first_cell aid shift row)
      \<and> (\<forall>j<M. rowId (nr ! j) = rowId (first_cell aid shift row))
      \<and> (\<forall>j. M \<le> j \<longrightarrow> j < length row \<longrightarrow> nr ! j = row ! j)
      \<and> (\<forall>x\<in>set nr. x \<in> set row \<or> (\<exists>r. x = createEmptyItem r))"
    unfolding norm_inv_def nr_def .
  from ne len have M: "0 < M" by (cases row) auto
  from A len have l: "length nr = M" by (simp add: max_def)
  with M have n1: "nr \<noteq> []" by auto
  note h = A[THEN conjunct2, THEN conjunct1, rule_format, OF M]
  note pre = A[THEN conjunct2, THEN conjunct2, THEN conjunct1]
  have "\<forall>x\<in>set nr. rowId x = rowId (hd nr)"
  proof
    fix x assume "x \<in> set nr"
    then obtain j where "j < length nr" "x = nr ! j" by (auto simp: in_set_conv_nth)
    with pre l h show "rowId x = rowId (hd nr)" by simp
  qed
  with n1 h show ?thesis unfolding nr_def by simp
qed

text \<open>
  C4, as the code has it. In a grid (every rendered item has a non-empty \<open>rowId\<close>, the
  ids are distinct) let the rows be those of \<^verbatim>\<open>groupItemsByRows\<close>, and let \<open>activeId\<close>
  be the id of the first item of one of them, for instance the shortest, and not the
  placeholder id. Without \<open>focusShift\<close>, \<open>down(0)\<close> returns the id of the first enabled
  item among the first cells of the rows below, and \<open>undefined\<close> only if there is none:
  the first column never holds a padding placeholder. With \<open>focusShift\<close> and an enabled
  active item, \<open>down(0)\<close> returns the id of the first enabled item of the rows below in
  row order: the first cell of the next row if it is enabled, else the nearest enabled
  cell of that row, else the same in the rows after it.
\<close>

theorem down_zero_from_first_item_of_row:
  assumes grid: "\<forall>i\<in>set (renderedItems st). truthy_str (rowId i)"
    and ids: "distinct (map item_id (renderedItems st))"
    and rows: "groupItemsByRows (renderedItems st) = rows_above @ row # rows_below"
    and act: "activeId st = Id a"
    and hd_row: "item_id (hd row) = Some a"
    and not_empty_id: "a \<noteq> ''__EMPTY_ITEM__''"
    and en: "focusShift st \<longrightarrow> \<not> is_disabled (hd row)"
  shows "down st (Some 0) =
           (if focusShift st
            then id_of (List.find (\<lambda>i. \<not> is_disabled i) (concat rows_below))
            else id_of (List.find (\<lambda>i. \<not> is_disabled i) (map hd rows_below)))"
proof -
  let ?R = "renderedItems st"
  let ?G = "groupItemsByRows ?R"
  let ?M = "getMaxRowLength ?G"
  let ?sh = "focusShift st"
  let ?fc = "first_cell (Id a) ?sh"
  let ?nrm = "\<lambda>r. foldl (normalizeCell (Id a) ?sh) r [0..<?M]"
  let ?N = "map ?nrm ?G"
  let ?F = "concat ?N"
  let ?V = "verticalizeItems ?F"
  let ?T = "\<lambda>x. truthy_str (rowId x)"
  let ?P = "\<lambda>x. rowId x = Some (string_of_nat 0)"
  let ?A = "\<lambda>i. item_id i = Some a"
  let ?en = "\<lambda>i. \<not> is_disabled i"
  let ?E = "\<lambda>i. \<not> is_disabled i \<and> (a \<noteq> [] \<longrightarrow> item_id i \<noteq> Some a)"
  have G1: "\<forall>r\<in>set ?G. r \<noteq> []" and hds: "map hd ?G = firsts ?R"
    using groupItemsByRows_heads[of ?R] by simp_all
  have G2: "\<forall>r\<in>set ?G. \<forall>y\<in>set r. rowId y = rowId (hd r)"
    by (rule groupItemsByRows_const)
  have G3: "distinct (map (\<lambda>r. rowId (hd r)) ?G)"
  proof -
    have "distinct (map rowId (map hd ?G))" by (simp only: hds distinct_rowId_firsts)
    then show ?thesis by (simp add: comp_def)
  qed
  have G4: "distinct (map item_id (concat ?G))"
    using ids by (rule distinct_concat_groupItemsByRows)
  have setG: "set (concat ?G) = set ?R" by (rule set_concat_groupItemsByRows)
  have G5: "\<forall>r\<in>set ?G. \<forall>y\<in>set r. ?T y"
  proof (intro ballI)
    fix r y assume "r \<in> set ?G" "y \<in> set r"
    then have "y \<in> set (concat ?G)" by auto
    with setG grid show "?T y" by simp
  qed
  have row_in: "row \<in> set ?G" by (simp add: rows)
  with G1 have row_ne: "row \<noteq> []" by simp
  then have hd_in: "hd row \<in> set row" by simp
  have shift_eq: "(?sh \<and> not_skip (Some 0)) = ?sh" by (simp add: not_skip_def)
  have other_ids: "\<forall>x\<in>set r. item_id x \<noteq> Some a" if "r \<in> set rows_above \<union> set rows_below" for r
  proof
    fix x assume x: "x \<in> set r"
    from G4 have d: "distinct (map item_id (concat rows_above @ row @ concat rows_below))"
      by (simp add: rows)
    then have d1: "item_id ` set (concat rows_above) \<inter> item_id ` set row = {}"
      and d2: "item_id ` set row \<inter> item_id ` set (concat rows_below) = {}"
      by (auto simp del: set_concat)
    from that x have "x \<in> set (concat rows_above) \<or> x \<in> set (concat rows_below)" by auto
    then have "item_id x \<noteq> item_id (hd row)"
    proof
      assume "x \<in> set (concat rows_above)"
      then have "item_id x \<in> item_id ` set (concat rows_above)" by (rule imageI)
      moreover from hd_in have "item_id (hd row) \<in> item_id ` set row" by (rule imageI)
      ultimately show ?thesis using d1 by (metis disjoint_iff)
    next
      assume "x \<in> set (concat rows_below)"
      then have "item_id x \<in> item_id ` set (concat rows_below)" by (rule imageI)
      moreover from hd_in have "item_id (hd row) \<in> item_id ` set row" by (rule imageI)
      ultimately show ?thesis using d2 by (metis disjoint_iff)
    qed
    with hd_row show "item_id x \<noteq> Some a" by simp
  qed
  have fc_cases: "?fc r \<in> set r \<or> (\<exists>k. ?fc r = createEmptyItem k)" if "r \<in> set ?G" for r
    using that G1 by (intro first_cell_cases) simp
  have fc_row: "?fc row = hd row" using en by (auto simp: first_cell_def)
  have fc_other_id: "item_id (?fc r) \<noteq> Some a" if "r \<in> set rows_above \<union> set rows_below" for r
  proof -
    from that have "r \<in> set ?G" by (auto simp: rows)
    from fc_cases[OF this] show ?thesis
      using other_ids[OF that] not_empty_id by (auto simp: item_id_createEmptyItem)
  qed
  have fc_T: "?T (?fc r) \<Longrightarrow> rowId (?fc r) = rowId (hd r)" if "r \<in> set ?G" for r
  proof -
    assume t: "?T (?fc r)"
    from that G1 G2 have "r \<noteq> []" "\<forall>x\<in>set r. rowId x = rowId (hd r)" by blast+
    from rowId_first_cell_cases[OF this, of "Id a" ?sh] t show ?thesis
      by (auto simp: truthy_str_def)
  qed
  have fc_notT: "\<not> ?T (?fc r) \<Longrightarrow> is_disabled (?fc r)" if "r \<in> set ?G" for r
  proof -
    assume nt: "\<not> ?T (?fc r)"
    from fc_cases[OF that] show ?thesis
    proof
      assume "?fc r \<in> set r"
      with G5 that nt show ?thesis by blast
    next
      assume "\<exists>k. ?fc r = createEmptyItem k"
      then show ?thesis by (auto simp: is_disabled_createEmptyItem)
    qed
  qed
  have nrm: "?nrm r \<noteq> [] \<and> hd (?nrm r) = ?fc r \<and> (\<forall>x\<in>set (?nrm r). rowId x = rowId (hd (?nrm r)))"
    if "r \<in> set ?G" for r
  proof (rule normalized_row[where rid = "rowId (hd r)"])
    from that G1 show "r \<noteq> []" by blast
    from that G2 show "\<forall>x\<in>set r. rowId x = rowId (hd r)" by blast
    from that show "length r \<le> ?M" by (rule getMaxRowLength_ge)
  qed
  have N_ok: "\<forall>r\<in>set ?N. r \<noteq> [] \<and> (\<forall>y\<in>set r. rowId y = rowId (hd r))"
  proof
    fix r' assume "r' \<in> set ?N"
    then obtain r where r: "r \<in> set ?G" and eq: "r' = ?nrm r" unfolding set_map by blast
    from nrm[OF r] have "?nrm r \<noteq> []" and "\<forall>y\<in>set (?nrm r). rowId y = rowId (hd (?nrm r))"
      by (rule conjunct1, rule conjunct2[THEN conjunct2])
    then show "r' \<noteq> [] \<and> (\<forall>y\<in>set r'. rowId y = rowId (hd r'))"
      unfolding eq by (rule conjI)
  qed
  have hdN: "map hd ?N = map ?fc ?G"
  proof -
    have "\<forall>r\<in>set ?G. hd (?nrm r) = ?fc r"
    proof
      fix r assume "r \<in> set ?G"
      from nrm[OF this] show "hd (?nrm r) = ?fc r" by (rule conjunct2[THEN conjunct1])
    qed
    then show ?thesis by (simp add: comp_def)
  qed
  have F_ne: "?F \<noteq> []"
  proof -
    from nrm[OF row_in] have "?nrm row \<noteq> []" by simp
    moreover have "?nrm row \<in> set ?N" using row_in by simp
    ultimately show ?thesis by (simp del: set_map) blast
  qed
  have firstsF: "firsts ?F = firsts (map ?fc ?G)"
    using firsts_concat[OF N_ok] by (simp only: hdN)
  have dT: "distinct (map rowId (filter ?T (map ?fc ?G)))"
  proof -
    have "distinct (map (\<lambda>r. rowId (?fc r)) (filter (\<lambda>r. truthy_str (rowId (?fc r))) ?G))"
      using fc_T G3
      by (intro distinct_map_filter_sub[where g = "\<lambda>r. rowId (hd r)" and T = truthy_str]) auto
    then show ?thesis by (simp add: filter_map comp_def)
  qed
  have filtT: "filter ?T (firsts ?F) = filter ?T (map ?fc ?G)"
    unfolding firstsF using dT by (rule filter_truthy_firsts)
  from verticalizeItems_split[OF F_ne] obtain rest where
    V: "?V = map (relabel 0) (firsts ?F) @ rest"
    and rest: "\<forall>x\<in>set rest. \<not> ?P x" by blast
  have P_relabel: "?P (relabel 0 x) = ?T x" for x
    by (simp add: relabel_def)
  have filtP: "filter ?P ?V = map (relabel 0) (filter ?T (map ?fc ?G))"
  proof -
    have "filter ?P rest = []" using rest by (simp add: filter_empty_conv)
    then have "filter ?P ?V = filter ?P (map (relabel 0) (firsts ?F))"
      by (simp add: V)
    also have "\<dots> = map (relabel 0) (filter ?T (firsts ?F))"
      by (simp add: filter_map comp_def P_relabel)
    finally show ?thesis by (simp only: filtT)
  qed
  define hsB where "hsB = filter ?T (map ?fc rows_above)"
  define hsA where "hsA = filter ?T (map ?fc rows_below)"
  have T_hd: "?T (hd row)" using G5 row_in hd_in by blast
  have hs: "filter ?T (map ?fc ?G) = hsB @ hd row # hsA"
    using T_hd by (simp add: rows fc_row hsB_def hsA_def)
  have hsB_ids: "\<forall>y\<in>set hsB. item_id y \<noteq> Some a"
    using fc_other_id by (auto simp: hsB_def)
  have hsA_ids: "\<forall>y\<in>set hsA. item_id y \<noteq> Some a"
    using fc_other_id by (auto simp: hsA_def)
  have id_relabel: "item_id (relabel 0 x) = item_id x" "is_disabled (relabel 0 x) = is_disabled x" for x
    by (simp_all add: relabel_def is_disabled_def)
  have col0_A: "\<forall>y\<in>set (map (relabel 0) (firsts ?F)). ?A y \<longrightarrow> ?P y"
  proof (intro ballI impI)
    fix y assume y: "y \<in> set (map (relabel 0) (firsts ?F))" and Ay: "?A y"
    then obtain x where x: "x \<in> set (firsts ?F)" and yx: "y = relabel 0 x" by auto
    from x firstsF set_firsts_subset[of "map ?fc ?G"] have "x \<in> set (map ?fc ?G)" by auto
    then obtain r where r: "r \<in> set ?G" and xr: "x = ?fc r" by auto
    from Ay yx have ida: "item_id x = Some a" by (simp add: id_relabel)
    from fc_cases[OF r] have "?T x"
    proof
      assume "?fc r \<in> set r"
      with G5 r xr show ?thesis by blast
    next
      assume "\<exists>k. ?fc r = createEmptyItem k"
      with xr ida not_empty_id show ?thesis by (auto simp: item_id_createEmptyItem)
    qed
    with yx show "?P y" by (simp add: P_relabel)
  qed
  have "relabel 0 (hd row) \<in> set (filter ?P ?V)"
    by (simp only: filtP hs) simp
  then have "relabel 0 (hd row) \<in> set (map (relabel 0) (firsts ?F))"
    using rest by (auto simp: V)
  moreover have "?A (relabel 0 (hd row))" by (simp add: id_relabel hd_row)
  ultimately obtain p where p0: "findIndex ?A (map (relabel 0) (firsts ?F)) = Some p"
    using findIndex_exists[of "relabel 0 (hd row)" "map (relabel 0) (firsts ?F)" ?A] by blast
  then have p: "findIndex ?A ?V = Some p"
    unfolding V by (rule findIndex_append_left)
  from findIndex_Some_props[OF p0] have plt: "p < length (map (relabel 0) (firsts ?F))"
    and Ap: "?A (map (relabel 0) (firsts ?F) ! p)" by (rule conjunct1, rule conjunct2)
  from plt have Vp: "?V ! p = map (relabel 0) (firsts ?F) ! p"
    unfolding V by (simp add: nth_append)
  from plt have "map (relabel 0) (firsts ?F) ! p \<in> set (map (relabel 0) (firsts ?F))"
    by (rule nth_mem)
  with col0_A Ap have Pp: "?P (?V ! p)" unfolding Vp by blast
  from filter_after_first[OF p, of ?P] Pp obtain q where
    q: "findIndex ?A (filter ?P ?V) = Some q"
    and after: "filter ?P (drop (Suc p) ?V) = drop (Suc q) (filter ?P ?V)" by blast
  have "findIndex ?A (map (relabel 0) hsB @ relabel 0 (hd row) # map (relabel 0) hsA)
          = Some (length (map (relabel 0) hsB))"
    using hsB_ids by (intro findIndex_append_first) (auto simp: id_relabel hd_row)
  with q have "q = length hsB" by (simp add: filtP hs)
  with after have cand: "filter ?P (drop (Suc p) ?V) = map (relabel 0) hsA"
    by (simp add: filtP hs)
  have res1: "getNextId st ?V Vertical h (Some 0) = id_of (List.find ?en hsA)" for h
  proof -
    have "getNextId st ?V Vertical h (Some 0)
            = id_of (List.find ?E (filter (\<lambda>i. rowId i = rowId (?V ! p)) (drop (Suc p) ?V)))"
      using act p by (rule getNextId_skip0)
    also have "(\<lambda>i. rowId i = rowId (?V ! p)) = ?P" using Pp by simp
    also have "id_of (List.find ?E (filter ?P (drop (Suc p) ?V)))
                 = id_of (List.find ?E (map (relabel 0) hsA))" by (simp only: cand)
    also have "\<dots> = id_of (List.find ?en hsA)"
      using hsA_ids by (intro id_of_find_map) (simp add: id_relabel)
    finally show ?thesis .
  qed
  have res2: "List.find ?en hsA = List.find ?en (map ?fc rows_below)"
    unfolding hsA_def
  proof (rule find_filter_redundant, intro ballI impI)
    fix x assume "x \<in> set (map ?fc rows_below)" and nt: "\<not> ?T x"
    then obtain r where "r \<in> set rows_below" "x = ?fc r" by auto
    then have "r \<in> set ?G" "x = ?fc r" by (simp_all add: rows)
    with fc_notT nt show "\<not> \<not> is_disabled x" by simp
  qed
  have res3: "List.find ?en (map ?fc rows_below) = List.find ?en (map hd rows_below)" if "\<not> ?sh"
  proof -
    from that have "?fc = hd" by (simp add: fun_eq_iff first_cell_def)
    then show ?thesis by (simp only:)
  qed
  have res4: "List.find ?en (map ?fc rows_below) = List.find ?en (concat rows_below)" if "?sh"
  proof -
    have "\<forall>r\<in>set rows_below. r \<noteq> [] \<and> (\<forall>x\<in>set r. Id a \<noteq> id_of (Some x))"
    proof (intro ballI conjI)
      fix r assume r: "r \<in> set rows_below"
      then have "r \<in> set ?G" by (simp add: rows)
      with G1 show "r \<noteq> []" by simp
    next
      fix r x assume r: "r \<in> set rows_below" and x: "x \<in> set r"
      from r have "r \<in> set rows_above \<union> set rows_below" by simp
      from other_ids[OF this] x have "item_id x \<noteq> Some a" by simp
      then show "Id a \<noteq> id_of (Some x)" by (auto simp: id_of_def split: option.splits)
    qed
    from find_first_cells_concat[OF this] that show ?thesis by simp
  qed
  have "down st (Some 0) = id_of (List.find ?en (map ?fc rows_below))"
    unfolding down_def Let_def shift_eq act flatten2DArray_def normalizeRows_def
    using res1 res2 by simp
  with res3 res4 show ?thesis by auto
qed

text \<open>
  Rows \<open>[[A], [B, C]]\<close> with \<open>A\<close> active: \<open>down(0)\<close> returns \<open>B\<close>. With \<open>B\<close>
  disabled it returns \<open>C\<close> under \<open>focusShift\<close> and \<open>undefined\<close> without.
\<close>

theorem down_zero_from_first_item_of_row_witness:
  "down (rendered [enabledItem ''A'' (Some ''r1''), enabledItem ''B'' (Some ''r2''),
                   enabledItem ''C'' (Some ''r2'')] (Id ''A'')) (Some 0) = Id ''B''
   \<and> down ((rendered [enabledItem ''A'' (Some ''r1''), disabledItem ''B'' (Some ''r2''),
                   enabledItem ''C'' (Some ''r2'')] (Id ''A''))\<lparr>focusShift := True\<rparr>) (Some 0)
       = Id ''C''
   \<and> down (rendered [enabledItem ''A'' (Some ''r1''), disabledItem ''B'' (Some ''r2''),
                   enabledItem ''C'' (Some ''r2'')] (Id ''A'')) (Some 0) = Undefined"
proof -
  let ?A = "enabledItem ''A'' (Some ''r1'')"
  let ?B = "enabledItem ''B'' (Some ''r2'')"
  let ?B' = "disabledItem ''B'' (Some ''r2'')"
  let ?C = "enabledItem ''C'' (Some ''r2'')"
  have g1: "groupItemsByRows [?A, ?B, ?C] = [] @ [?A] # [[?B, ?C]]"
    by (simp add: groupItemsByRows_def head_rowId_def enabledItem_def)
  have g2: "groupItemsByRows [?A, ?B', ?C] = [] @ [?A] # [[?B', ?C]]"
    by (simp add: groupItemsByRows_def head_rowId_def enabledItem_def disabledItem_def)
  have 1: "down (rendered [?A, ?B, ?C] (Id ''A'')) (Some 0) = Id ''B''"
    using down_zero_from_first_item_of_row
            [of "rendered [?A, ?B, ?C] (Id ''A'')" "[]" "[?A]" "[[?B, ?C]]" "''A''"] g1
    by (simp add: rendered_def initialState_def enabledItem_def truthy_str_def is_disabled_def
        id_of_def)
  have 2: "down ((rendered [?A, ?B', ?C] (Id ''A''))\<lparr>focusShift := True\<rparr>) (Some 0) = Id ''C''"
    using down_zero_from_first_item_of_row
            [of "(rendered [?A, ?B', ?C] (Id ''A''))\<lparr>focusShift := True\<rparr>"
                "[]" "[?A]" "[[?B', ?C]]" "''A''"] g2
    by (simp add: rendered_def initialState_def enabledItem_def disabledItem_def truthy_str_def
        is_disabled_def id_of_def)
  have 3: "down (rendered [?A, ?B', ?C] (Id ''A'')) (Some 0) = Undefined"
    using down_zero_from_first_item_of_row
            [of "rendered [?A, ?B', ?C] (Id ''A'')" "[]" "[?A]" "[[?B', ?C]]" "''A''"] g2
    by (simp add: rendered_def initialState_def enabledItem_def disabledItem_def truthy_str_def
        is_disabled_def id_of_def)
  from 1 2 3 show ?thesis by simp
qed

text \<open>
  C4 as stated fails: in the rows \<open>[[A], [B, C]]\<close> of enabled items, \<open>A\<close> is the first
  item of the shortest row, \<open>focusShift\<close> is false, and \<open>down(0)\<close> returns \<open>B\<close>: it is
  not a no-op on a placeholder.
\<close>

theorem down_zero_from_first_item_of_row_counterexample:
  "groupItemsByRows [enabledItem ''A'' (Some ''r1''), enabledItem ''B'' (Some ''r2''),
                     enabledItem ''C'' (Some ''r2'')]
     = [[enabledItem ''A'' (Some ''r1'')],
        [enabledItem ''B'' (Some ''r2''), enabledItem ''C'' (Some ''r2'')]]
   \<and> focusShift (rendered [enabledItem ''A'' (Some ''r1''), enabledItem ''B'' (Some ''r2''),
                   enabledItem ''C'' (Some ''r2'')] (Id ''A'')) = False
   \<and> down (rendered [enabledItem ''A'' (Some ''r1''), enabledItem ''B'' (Some ''r2''),
                   enabledItem ''C'' (Some ''r2'')] (Id ''A'')) (Some 0) = Id ''B''"
  by code_simp

end
